theory Spec2Isabelle
  imports Main "HOL-Library.AList" "HOL-Library.Product_Lexorder" "HOL-Library.Multiset"
begin

section \<open>Data model\<close>

text \<open>
  The module \<^verbatim>\<open>polyply/src/map_to_molecule.py\<close> works on networkx graphs whose nodes
  carry attribute dictionaries. A dictionary is an association list in insertion order
  (Python dictionaries keep it); a lookup is \<open>map_of\<close>, a store is \<open>AList.update\<close>
  (an existing key keeps its place, a new key goes to the end). A Python dictionary has
  every key once; a list that repeats a key is read as the dictionary of its first
  entries.

  Attribute values are dynamically typed in Python. The values the module reads are
  integers (\<^verbatim>\<open>resid\<close>, \<^verbatim>\<open>nrexcl\<close>), strings (\<^verbatim>\<open>resname\<close>,
  \<^verbatim>\<open>from_itp\<close>) and graphs (the \<^verbatim>\<open>graph\<close> attribute written by \<^verbatim>\<open>add_blocks\<close>).

  A graph is the node dictionary (node to attribute dictionary) and the adjacency
  dictionary (node to the list of its neighbours, in the order the edges were added), as
  networkx stores them. Node identities are natural numbers.
\<close>

datatype 'v graph = Graph (gnodes: "(nat \<times> (string \<times> 'v) list) list") (gadj: "(nat \<times> nat list) list")

datatype val = VInt int | VStr string | VGraph "val graph"

type_synonym attrs = "(string \<times> val) list"

datatype error = KeyError | IndexError | IOError | ValueError | TypeError

text \<open>
  A vermouth \<^verbatim>\<open>Molecule\<close> (and its subclass \<^verbatim>\<open>Block\<close>) is a graph with the scalar
  attribute \<^verbatim>\<open>nrexcl\<close>. Interactions are not read by this module and are left out.
  The template library \<^verbatim>\<open>force_field.blocks\<close> is a dictionary from names to blocks.
\<close>

record molecule =
  mgraph :: "val graph"
  nrexcl :: int

type_synonym force_field = "(string \<times> molecule) list"

text \<open>The attributes of \<^verbatim>\<open>MapToMolecule\<close>, as \<^verbatim>\<open>__init__\<close> declares them.\<close>

record processor =
  node_to_block :: "(nat \<times> val) list"
  node_to_fragment :: "(nat \<times> nat) list"
  fragments :: "nat list list"
  multiblock_correspondence :: "(nat \<times> nat) list list"
  added_fragments :: "nat list"
  added_fragment_nodes :: "nat list"
  force_field :: force_field

definition init :: "force_field \<Rightarrow> processor" where
  "init ff = \<lparr> node_to_block = [], node_to_fragment = [], fragments = [],
               multiblock_correspondence = [], added_fragments = [],
               added_fragment_nodes = [], force_field = ff \<rparr>"

section \<open>networkx operations used by the module\<close>

definition empty_graph :: "'v graph" where
  "empty_graph = Graph [] []"

definition node_keys :: "'v graph \<Rightarrow> nat list" where
  "node_keys g = map fst (gnodes g)"

definition has_node :: "'v graph \<Rightarrow> nat \<Rightarrow> bool" where
  "has_node g n = (n \<in> set (node_keys g))"

text \<open>
  \<^verbatim>\<open>d.items()\<close>: the keys in order, each with the value a lookup gives. For an
  association list with distinct keys this is the list itself.
\<close>

definition items :: "('k \<times> 'w) list \<Rightarrow> ('k \<times> 'w) list" where
  "items d = concat (map (\<lambda>k. case map_of d k of None \<Rightarrow> [] | Some v \<Rightarrow> [(k, v)]) (map fst d))"

text \<open>\<^verbatim>\<open>d.update(data)\<close>\<close>

definition dict_update :: "('k \<times> 'w) list \<Rightarrow> ('k \<times> 'w) list \<Rightarrow> ('k \<times> 'w) list" where
  "dict_update d data = fold (\<lambda>(k, v) acc. AList.update k v acc) (items data) d"

text \<open>
  \<^verbatim>\<open>G.add_node(n, **data)\<close>: a new node gets a fresh attribute dictionary holding
  \<open>data\<close> and an empty adjacency; for a node already in the graph the attribute
  dictionary is updated with \<open>data\<close>.
\<close>

definition add_node :: "'v graph \<Rightarrow> nat \<Rightarrow> (string \<times> 'v) list \<Rightarrow> 'v graph" where
  "add_node g n data =
     (case map_of (gnodes g) n of
        None \<Rightarrow> Graph (gnodes g @ [(n, dict_update [] data)]) (gadj g @ [(n, [])])
      | Some old \<Rightarrow> Graph (AList.update n (dict_update old data) (gnodes g)) (gadj g))"

definition neighbors :: "'v graph \<Rightarrow> nat \<Rightarrow> nat list" where
  "neighbors g n = (case map_of (gadj g) n of None \<Rightarrow> [] | Some ns \<Rightarrow> ns)"

definition add_neighbor :: "'v graph \<Rightarrow> nat \<Rightarrow> nat \<Rightarrow> 'v graph" where
  "add_neighbor g u v =
     (if v \<in> set (neighbors g u) then g
      else Graph (gnodes g) (AList.update u (neighbors g u @ [v]) (gadj g)))"

text \<open>
  \<^verbatim>\<open>G.add_edge(u, v)\<close>: both end points become nodes if they are not yet, and each is
  entered in the other's adjacency.
\<close>

definition add_edge :: "'v graph \<Rightarrow> nat \<Rightarrow> nat \<Rightarrow> 'v graph" where
  "add_edge g u v =
     (let g1 = (if has_node g u then g else add_node g u []);
          g2 = (if has_node g1 v then g1 else add_node g1 v [])
      in add_neighbor (add_neighbor g2 u v) v u)"

text \<open>
  \<^verbatim>\<open>G.edges\<close>: every edge once, reported at the first of its end points in the
  iteration order of the adjacency dictionary.
\<close>

fun edges_from :: "(nat \<times> nat list) list \<Rightarrow> nat list \<Rightarrow> (nat \<times> nat) list" where
  "edges_from [] seen = []"
| "edges_from ((n, nbrs) # rest) seen =
     map (Pair n) (filter (\<lambda>v. v \<notin> set seen) nbrs) @ edges_from rest (n # seen)"

definition edges :: "'v graph \<Rightarrow> (nat \<times> nat) list" where
  "edges g = edges_from (gadj g) []"

text \<open>\<^verbatim>\<open>nx.get_node_attributes(G, name)\<close>: the nodes that carry \<open>name\<close>, with its value.\<close>

definition get_node_attributes :: "'v graph \<Rightarrow> string \<Rightarrow> (nat \<times> 'v) list" where
  "get_node_attributes g name =
     concat (map (\<lambda>n. case map_of (gnodes g) n of
                          None \<Rightarrow> []
                        | Some d \<Rightarrow> (case map_of d name of None \<Rightarrow> [] | Some v \<Rightarrow> [(n, v)]))
                 (node_keys g))"

text \<open>\<^verbatim>\<open>nx.set_node_attributes(G, value, name)\<close> with a scalar \<open>value\<close>: set on every node.\<close>

definition set_node_attributes :: "'v graph \<Rightarrow> 'v \<Rightarrow> string \<Rightarrow> 'v graph" where
  "set_node_attributes g v name =
     Graph (map (\<lambda>(n, d). (n, AList.update name v d)) (gnodes g)) (gadj g)"

text \<open>\<^verbatim>\<open>G.nodes[n][name] = value\<close>; a \<^verbatim>\<open>KeyError\<close> when \<open>n\<close> is not a node.\<close>

definition set_attr :: "'v graph \<Rightarrow> nat \<Rightarrow> string \<Rightarrow> 'v \<Rightarrow> error + 'v graph" where
  "set_attr g n name v =
     (case map_of (gnodes g) n of
        None \<Rightarrow> Inl KeyError
      | Some d \<Rightarrow> Inr (Graph (AList.update n (AList.update name v d) (gnodes g)) (gadj g)))"

text \<open>
  \<^verbatim>\<open>nx.dfs_edges(G)\<close>: the tree edges of a depth-first search that starts at every node
  not yet visited, in node order, and follows the neighbours in adjacency order. The
  loop is networkx's own, with its explicit stack of (parent, remaining children); its
  depth limit is the number of nodes and is never reached.
\<close>

function dfs_loop ::
  "(nat \<times> nat list) list \<Rightarrow> (nat \<times> nat list) list \<Rightarrow> nat list \<Rightarrow> (nat \<times> nat) list
     \<Rightarrow> nat list \<times> (nat \<times> nat) list" where
  "dfs_loop adj [] visited out = (visited, out)"
| "dfs_loop adj ((parent, []) # stack) visited out = dfs_loop adj stack visited out"
| "dfs_loop adj ((parent, child # children) # stack) visited out =
     (if child \<in> set visited
      then dfs_loop adj ((parent, children) # stack) visited out
      else dfs_loop adj
             ((child, (case map_of adj child of None \<Rightarrow> [] | Some ns \<Rightarrow> ns))
                # (parent, children) # stack)
             (visited @ [child]) (out @ [(parent, child)]))"
  by pat_completeness auto

definition dfs_pending :: "(nat \<times> nat list) list \<Rightarrow> (nat \<times> nat list) list \<Rightarrow> nat list \<Rightarrow> nat set" where
  "dfs_pending adj stack visited =
     (\<Union>(set ` snd ` set adj) \<union> \<Union>(set ` snd ` set stack)) - set visited"

termination dfs_loop
proof (relation "measures [\<lambda>(adj, stack, visited, out). card (dfs_pending adj stack visited),
                           \<lambda>(adj, stack, visited, out). sum_list (map (\<lambda>(p, cs). Suc (length cs)) stack)]",
       goal_cases)
  case 1
  show ?case by simp
next
  case (2 adj parent stack visited out)
  have "dfs_pending adj stack visited \<subseteq> dfs_pending adj ((parent, []) # stack) visited"
    by (auto simp: dfs_pending_def)
  then have "card (dfs_pending adj stack visited) \<le> card (dfs_pending adj ((parent, []) # stack) visited)"
    by (intro card_mono) (simp_all add: dfs_pending_def)
  then show ?case by auto
next
  case (3 adj parent child children stack visited out)
  have "dfs_pending adj ((parent, children) # stack) visited
          \<subseteq> dfs_pending adj ((parent, child # children) # stack) visited"
    by (auto simp: dfs_pending_def)
  then have "card (dfs_pending adj ((parent, children) # stack) visited)
          \<le> card (dfs_pending adj ((parent, child # children) # stack) visited)"
    by (intro card_mono) (simp_all add: dfs_pending_def)
  then show ?case by auto
next
  case (4 adj parent child children stack visited out)
  let ?ns = "case map_of adj child of None \<Rightarrow> [] | Some ns \<Rightarrow> ns"
  let ?old = "dfs_pending adj ((parent, child # children) # stack) visited"
  let ?new = "dfs_pending adj ((child, ?ns) # (parent, children) # stack) (visited @ [child])"
  have "set ?ns \<subseteq> \<Union>(set ` snd ` set adj)"
  proof (cases "map_of adj child")
    case None
    then show ?thesis by simp
  next
    case (Some ns)
    then have "(child, ns) \<in> set adj" by (rule map_of_SomeD)
    then show ?thesis using Some by force
  qed
  then have "?new \<subseteq> ?old - {child}"
    unfolding dfs_pending_def by auto
  moreover have "child \<in> ?old"
    using 4 by (simp add: dfs_pending_def)
  ultimately have "?new \<subset> ?old" by blast
  moreover have "finite ?old" by (simp add: dfs_pending_def)
  ultimately have "card ?new < card ?old" by (rule psubset_card_mono[rotated])
  then show ?case by simp
qed

fun dfs_sources ::
  "(nat \<times> nat list) list \<Rightarrow> nat list \<Rightarrow> nat list \<Rightarrow> (nat \<times> nat) list \<Rightarrow> (nat \<times> nat) list" where
  "dfs_sources adj [] visited out = out"
| "dfs_sources adj (start # rest) visited out =
     (if start \<in> set visited then dfs_sources adj rest visited out
      else (case dfs_loop adj [(start, (case map_of adj start of None \<Rightarrow> [] | Some ns \<Rightarrow> ns))]
                   (visited @ [start]) out of
              (visited', out') \<Rightarrow> dfs_sources adj rest visited' out'))"

definition dfs_edges :: "'v graph \<Rightarrow> (nat \<times> nat) list" where
  "dfs_edges g = dfs_sources (gadj g) (node_keys g) [] []"

text \<open>
  \<^verbatim>\<open>nx.connected_components(G)\<close>: for every node not yet seen, in node order, the set
  of nodes reachable from it. networkx collects the set breadth-first; a Python set has
  no defined iteration order, and the module only tests membership and equality of all
  members, so the model lists a component in the order the search above discovers it.
\<close>

fun components_from :: "(nat \<times> nat list) list \<Rightarrow> nat list \<Rightarrow> nat list \<Rightarrow> nat list list" where
  "components_from adj [] seen = []"
| "components_from adj (v # rest) seen =
     (if v \<in> set seen then components_from adj rest seen
      else (let c = fst (dfs_loop adj [(v, (case map_of adj v of None \<Rightarrow> [] | Some ns \<Rightarrow> ns))] [v] [])
            in c # components_from adj rest (seen @ c)))"

definition connected_components :: "'v graph \<Rightarrow> nat list list" where
  "connected_components g = components_from (gadj g) (node_keys g) []"

section \<open>vermouth operations used by the module\<close>

text \<open>
  Modelled from the spec: \<^verbatim>\<open>Block.to_molecule\<close> and \<^verbatim>\<open>Molecule.merge_molecule\<close>
  belong to the vermouth library and are not part of the sources; the specification
  names them \<^verbatim>\<open>instantiate() -> molecule\<close> and
  \<^verbatim>\<open>merge_into(target_molecule) -> correspondence\<close>, the correspondence being the
  mapping from the block's local node identities to the identities they receive in the
  target molecule. The model follows vermouth: instantiation numbers the atoms from 0
  in node order; a merge numbers them from one past the largest identity of the target,
  offsets their \<^verbatim>\<open>resid\<close> (default 1) by the \<^verbatim>\<open>resid\<close> of the target's
  last atom, carries the block's edges over, and refuses a block whose \<^verbatim>\<open>nrexcl\<close>
  differs from the target's. Interactions and charge groups are left out: the module
  does not read them.
\<close>

definition shift_resid :: "val \<Rightarrow> attrs \<Rightarrow> error + attrs" where
  "shift_resid off atom =
     (case (case map_of atom ''resid'' of None \<Rightarrow> VInt 1 | Some r \<Rightarrow> r) of
        VInt r \<Rightarrow>
          (case off of
             VInt k \<Rightarrow> Inr (AList.update ''resid'' (VInt (r + k)) atom)
           | _ \<Rightarrow> Inl TypeError)
      | _ \<Rightarrow> Inl TypeError)"

fun add_atoms :: "val graph \<Rightarrow> val \<Rightarrow> (nat \<times> attrs) list \<Rightarrow> nat \<Rightarrow> error + val graph" where
  "add_atoms g off [] idx = Inr g"
| "add_atoms g off ((key, atom) # rest) idx =
     (case shift_resid off atom of
        Inl e \<Rightarrow> Inl e
      | Inr new_atom \<Rightarrow> add_atoms (add_node g idx new_atom) off rest (Suc idx))"

fun add_mapped_edges :: "val graph \<Rightarrow> (nat \<times> nat) list \<Rightarrow> (nat \<times> nat) list \<Rightarrow> error + val graph" where
  "add_mapped_edges g corr [] = Inr g"
| "add_mapped_edges g corr ((node1, node2) # rest) =
     (case (map_of corr node1, map_of corr node2) of
        (Some i, Some j) \<Rightarrow>
          (if i \<noteq> j then add_mapped_edges (add_edge g i j) corr rest
           else add_mapped_edges g corr rest)
      | _ \<Rightarrow> Inl KeyError)"

definition enumerate_from :: "nat \<Rightarrow> nat list \<Rightarrow> (nat \<times> nat) list" where
  "enumerate_from start ks = zip ks [start ..< start + length ks]"

definition to_molecule :: "molecule \<Rightarrow> error + molecule" where
  "to_molecule block =
     (case add_atoms empty_graph (VInt 0) (items (gnodes (mgraph block))) 0 of
        Inl e \<Rightarrow> Inl e
      | Inr g \<Rightarrow>
          (case add_mapped_edges g (enumerate_from 0 (node_keys (mgraph block)))
                  (edges (mgraph block)) of
             Inl e \<Rightarrow> Inl e
           | Inr g' \<Rightarrow> Inr \<lparr> mgraph = g', nrexcl = nrexcl block \<rparr>))"

definition last_resid :: "val graph \<Rightarrow> error + (nat \<times> val)" where
  "last_resid g =
     (if node_keys g = [] then Inr (0, VInt 0)
      else
        (let last_node_idx = Max (set (node_keys g)) in
         case map_of (gnodes g) last_node_idx of
           None \<Rightarrow> Inl KeyError
         | Some d \<Rightarrow>
             (case map_of d ''resid'' of
                None \<Rightarrow> Inl KeyError
              | Some r \<Rightarrow> Inr (last_node_idx, r))))"

definition merge_molecule :: "molecule \<Rightarrow> molecule \<Rightarrow> error + (molecule \<times> (nat \<times> nat) list)" where
  "merge_molecule self other =
     (if nrexcl self \<noteq> nrexcl other then Inl ValueError
      else
        (case last_resid (mgraph self) of
           Inl e \<Rightarrow> Inl e
         | Inr (offset, residue_offset) \<Rightarrow>
             (let correspondence = enumerate_from (offset + 1) (node_keys (mgraph other)) in
              case add_atoms (mgraph self) residue_offset (items (gnodes (mgraph other)))
                     (offset + 1) of
                Inl e \<Rightarrow> Inl e
              | Inr g \<Rightarrow>
                  (case add_mapped_edges g correspondence (edges (mgraph other)) of
                     Inl e \<Rightarrow> Inl e
                   | Inr g' \<Rightarrow> Inr (self\<lparr> mgraph := g' \<rparr>, correspondence)))))"

text \<open>
  \<^verbatim>\<open>force_field.blocks[name]\<close>: the keys of the library are strings, so a value that
  is not a string is a missing key.
\<close>

definition lookup_block :: "force_field \<Rightarrow> val \<Rightarrow> error + (string \<times> molecule)" where
  "lookup_block ff v =
     (case v of
        VStr name \<Rightarrow> (case map_of ff name of None \<Rightarrow> Inl KeyError | Some b \<Rightarrow> Inr (name, b))
      | _ \<Rightarrow> Inl KeyError)"

section \<open>The module\<close>

subsection \<open>\<^verbatim>\<open>tag_exclusions\<close>\<close>

text \<open>
  The template library is shared and mutated in place, so the function returns the
  library as it stands when the call ends, with the exception raised, if any. Every name
  of the library holds a block of its own: two names do not share one block object.
\<close>

fun collect_excls ::
  "(nat \<times> val) list \<Rightarrow> force_field \<Rightarrow> nat list \<Rightarrow> (nat \<times> int) list \<Rightarrow> error + (nat \<times> int) list" where
  "collect_excls ntb ff [] excls = Inr excls"
| "collect_excls ntb ff (node # rest) excls =
     (case map_of ntb node of
        None \<Rightarrow> Inl KeyError
      | Some name \<Rightarrow>
          (case lookup_block ff name of
             Inl e \<Rightarrow> Inl e
           | Inr (_, block) \<Rightarrow> collect_excls ntb ff rest (AList.update node (nrexcl block) excls)))"

fun tag_loop ::
  "(nat \<times> val) list \<Rightarrow> int \<Rightarrow> (nat \<times> int) list \<Rightarrow> force_field \<Rightarrow> force_field \<times> error option" where
  "tag_loop ntb min_excl [] ff = (ff, None)"
| "tag_loop ntb min_excl ((node, excl) # rest) ff =
     (case map_of ntb node of
        None \<Rightarrow> (ff, Some KeyError)
      | Some name \<Rightarrow>
          (case lookup_block ff name of
             Inl e \<Rightarrow> (ff, Some e)
           | Inr (key, block) \<Rightarrow>
               tag_loop ntb min_excl rest
                 (AList.update key
                    (block\<lparr> mgraph := set_node_attributes (mgraph block) (VInt excl) ''exclude'',
                            nrexcl := min_excl \<rparr>) ff)))"

definition tag_exclusions :: "(nat \<times> val) list \<Rightarrow> force_field \<Rightarrow> force_field \<times> error option" where
  "tag_exclusions ntb ff =
     (case collect_excls ntb ff (map fst ntb) [] of
        Inl e \<Rightarrow> (ff, Some e)
      | Inr excls \<Rightarrow>
          (if length (remdups (map snd excls)) > 1
           then tag_loop ntb (Min (set (map snd excls))) excls ff
           else (ff, None)))"

subsection \<open>\<^verbatim>\<open>_correspondence_to_residue\<close>\<close>

fun propagate :: "val graph \<Rightarrow> nat \<Rightarrow> attrs \<Rightarrow> error + val graph" where
  "propagate residue mol_node [] = Inr residue"
| "propagate residue mol_node ((attribute, v) # rest) =
     (if attribute \<in> set [''graph'', ''seqID''] then propagate residue mol_node rest
      else (case set_attr residue mol_node attribute v of
              Inl e \<Rightarrow> Inl e
            | Inr residue' \<Rightarrow> propagate residue' mol_node rest))"

fun residue_loop ::
  "attrs \<Rightarrow> val \<Rightarrow> val graph \<Rightarrow> val graph \<Rightarrow> nat list \<Rightarrow> error + val graph" where
  "residue_loop meta_attrs resid molecule residue [] = Inr residue"
| "residue_loop meta_attrs resid molecule residue (mol_node # rest) =
     (case map_of (gnodes molecule) mol_node of
        None \<Rightarrow> Inl KeyError
      | Some data \<Rightarrow>
          (case map_of data ''resid'' of
             None \<Rightarrow> Inl KeyError
           | Some r \<Rightarrow>
               (if r = resid
                then (case propagate (add_node residue mol_node data) mol_node (items meta_attrs) of
                        Inl e \<Rightarrow> Inl e
                      | Inr residue' \<Rightarrow> residue_loop meta_attrs resid molecule residue' rest)
                else residue_loop meta_attrs resid molecule residue rest)))"

definition correspondence_to_residue ::
  "val graph \<Rightarrow> molecule \<Rightarrow> (nat \<times> nat) list \<Rightarrow> nat \<Rightarrow> error + val graph" where
  "correspondence_to_residue meta_molecule molecule correspondence res_node =
     (case map_of (gnodes meta_molecule) res_node of
        None \<Rightarrow> Inl KeyError
      | Some meta_attrs \<Rightarrow>
          (case map_of meta_attrs ''resid'' of
             None \<Rightarrow> Inl KeyError
           | Some resid \<Rightarrow>
               residue_loop meta_attrs resid (mgraph molecule) empty_graph (map snd correspondence)))"

subsection \<open>\<^verbatim>\<open>MapToMolecule.match_nodes_to_blocks\<close>\<close>

definition classify_edges ::
  "(nat \<times> val) list \<Rightarrow> (nat \<times> nat) list \<Rightarrow> val graph \<times> val graph" where
  "classify_edges restart_attr es =
     fold (\<lambda>(idx, jdx) (regular_graph, restart_graph).
             if map_of restart_attr idx \<noteq> None \<and> map_of restart_attr jdx \<noteq> None
             then (regular_graph, add_edge restart_graph idx jdx)
             else (add_edge regular_graph idx jdx, restart_graph))
          es (empty_graph, empty_graph)"

fun match_regular :: "val graph \<Rightarrow> (nat \<times> val) list \<Rightarrow> nat list \<Rightarrow> error + (nat \<times> val) list" where
  "match_regular meta_molecule ntb [] = Inr ntb"
| "match_regular meta_molecule ntb (node # rest) =
     (case map_of (gnodes meta_molecule) node of
        None \<Rightarrow> Inl KeyError
      | Some d \<Rightarrow>
          (case map_of d ''resname'' of
             None \<Rightarrow> Inl KeyError
           | Some resname \<Rightarrow> match_regular meta_molecule (AList.update node resname ntb) rest))"

fun lookup_all :: "(nat \<times> val) list \<Rightarrow> nat list \<Rightarrow> error + val list" where
  "lookup_all d [] = Inr []"
| "lookup_all d (k # ks) =
     (case map_of d k of
        None \<Rightarrow> Inl KeyError
      | Some v \<Rightarrow> (case lookup_all d ks of Inl e \<Rightarrow> Inl e | Inr vs \<Rightarrow> Inr (v # vs)))"

definition assign_fragment :: "processor \<Rightarrow> val \<Rightarrow> nat list \<Rightarrow> processor" where
  "assign_fragment s block_name fragment =
     fold (\<lambda>node s'. s'\<lparr> node_to_block := AList.update node block_name (node_to_block s'),
                         node_to_fragment :=
                           AList.update node (length (fragments s') - 1) (node_to_fragment s') \<rparr>)
          fragment s"

fun match_fragments :: "(nat \<times> val) list \<Rightarrow> processor \<Rightarrow> nat list list \<Rightarrow> error + processor" where
  "match_fragments restart_attr s [] = Inr s"
| "match_fragments restart_attr s (fragment # rest) =
     (case fragment of
        [] \<Rightarrow> Inl IndexError
      | first # _ \<Rightarrow>
          (case map_of restart_attr first of
             None \<Rightarrow> Inl KeyError
           | Some block_name \<Rightarrow>
               (case lookup_all restart_attr fragment of
                  Inl e \<Rightarrow> Inl e
                | Inr names \<Rightarrow>
                    (if list_all (\<lambda>name. name = block_name) names
                     then
                       (case lookup_block (force_field s) block_name of
                          Inl e \<Rightarrow> Inl e
                        | Inr _ \<Rightarrow>
                            match_fragments restart_attr
                              (assign_fragment (s\<lparr> fragments := fragments s @ [fragment] \<rparr>)
                                 block_name fragment)
                              rest)
                     else Inl IOError))))"

definition restart_attr_of :: "val graph \<Rightarrow> (nat \<times> val) list" where
  "restart_attr_of meta_molecule = get_node_attributes meta_molecule ''from_itp''"

definition regular_graph_of :: "val graph \<Rightarrow> val graph" where
  "regular_graph_of meta_molecule =
     fst (classify_edges (restart_attr_of meta_molecule) (dfs_edges meta_molecule))"

definition restart_graph_of :: "val graph \<Rightarrow> val graph" where
  "restart_graph_of meta_molecule =
     snd (classify_edges (restart_attr_of meta_molecule) (dfs_edges meta_molecule))"

text \<open>
  The method mutates the processor only; when it raises, the processor is abandoned with
  the exception, and the model returns the exception alone.
\<close>

definition match_nodes_to_blocks :: "processor \<Rightarrow> val graph \<Rightarrow> error + processor" where
  "match_nodes_to_blocks s meta_molecule =
     (case match_regular meta_molecule (node_to_block s)
             (node_keys (regular_graph_of meta_molecule)) of
        Inl e \<Rightarrow> Inl e
      | Inr ntb \<Rightarrow>
          match_fragments (restart_attr_of meta_molecule) (s\<lparr> node_to_block := ntb \<rparr>)
            (connected_components (restart_graph_of meta_molecule)))"

subsection \<open>\<^verbatim>\<open>MapToMolecule.add_blocks\<close>\<close>

text \<open>
  The visiting order: \<^verbatim>\<open>sorted(zip(resids, node_keys))\<close> orders the pairs by
  \<^verbatim>\<open>resid\<close> first and by node second. The specification makes \<^verbatim>\<open>resid\<close> an
  integer; for a value of another type the model reports \<^verbatim>\<open>TypeError\<close>.
\<close>

fun int_values :: "val list \<Rightarrow> error + int list" where
  "int_values [] = Inr []"
| "int_values (v # vs) =
     (case v of
        VInt i \<Rightarrow> (case int_values vs of Inl e \<Rightarrow> Inl e | Inr is \<Rightarrow> Inr (i # is))
      | _ \<Rightarrow> Inl TypeError)"

definition sorted_node_keys :: "val graph \<Rightarrow> error + nat list" where
  "sorted_node_keys meta_molecule =
     (case lookup_all (get_node_attributes meta_molecule ''resid'') (node_keys meta_molecule) of
        Inl e \<Rightarrow> Inl e
      | Inr resids \<Rightarrow>
          (case int_values resids of
             Inl e \<Rightarrow> Inl e
           | Inr is \<Rightarrow> Inr (map snd (sort (zip is (node_keys meta_molecule))))))"

text \<open>Lines 203 to 209: the correspondence of a node, reused or obtained by a merge.\<close>

definition fetch_correspondence ::
  "processor \<Rightarrow> molecule \<Rightarrow> nat \<Rightarrow> error + (molecule \<times> (nat \<times> nat) list)" where
  "fetch_correspondence s new_mol node =
     (if node \<in> set (added_fragment_nodes s)
      then
        (case map_of (node_to_fragment s) node of
           None \<Rightarrow> Inl KeyError
         | Some fragment_id \<Rightarrow>
             (if fragment_id < length (multiblock_correspondence s)
              then Inr (new_mol, multiblock_correspondence s ! fragment_id)
              else Inl IndexError))
      else
        (case map_of (node_to_block s) node of
           None \<Rightarrow> Inl KeyError
         | Some name \<Rightarrow>
             (case lookup_block (force_field s) name of
                Inl e \<Rightarrow> Inl e
              | Inr (_, block) \<Rightarrow> merge_molecule new_mol block)))"

text \<open>
  Lines 222 to 225: the bookkeeping after a residue was attached. The fragment whose
  nodes are marked is looked up for \<open>start_node\<close>, as the source does.
\<close>

definition mark_fragment ::
  "processor \<Rightarrow> val graph \<Rightarrow> nat \<Rightarrow> nat \<Rightarrow> (nat \<times> nat) list \<Rightarrow> error + processor" where
  "mark_fragment s meta_molecule start_node node correspondence =
     (case map_of (gnodes meta_molecule) node of
        None \<Rightarrow> Inl KeyError
      | Some d \<Rightarrow>
          (if map_of d ''from_itp'' \<noteq> None \<and> node \<notin> set (added_fragments s)
           then
             (case map_of (node_to_fragment s) start_node of
                None \<Rightarrow> Inl KeyError
              | Some fragment_id \<Rightarrow>
                  (if fragment_id < length (fragments s)
                   then Inr (s\<lparr> added_fragment_nodes :=
                                   added_fragment_nodes s @ fragments s ! fragment_id,
                                 multiblock_correspondence :=
                                   multiblock_correspondence s @ [correspondence] \<rparr>)
                   else Inl IndexError))
           else Inr s))"

text \<open>One round of the loop of lines 200 to 225.\<close>

definition add_block_node ::
  "nat \<Rightarrow> processor \<times> val graph \<times> molecule \<Rightarrow> nat \<Rightarrow> error + (processor \<times> val graph \<times> molecule)" where
  "add_block_node start_node st node =
     (case st of (s, meta_molecule, new_mol) \<Rightarrow>
        (case fetch_correspondence s new_mol node of
           Inl e \<Rightarrow> Inl e
         | Inr (new_mol', correspondence) \<Rightarrow>
             (case correspondence_to_residue meta_molecule new_mol' correspondence node of
                Inl e \<Rightarrow> Inl e
              | Inr residue \<Rightarrow>
                  (case set_attr meta_molecule node ''graph'' (VGraph residue) of
                     Inl e \<Rightarrow> Inl e
                   | Inr meta_molecule' \<Rightarrow>
                       (case mark_fragment s meta_molecule' start_node node correspondence of
                          Inl e \<Rightarrow> Inl e
                        | Inr s' \<Rightarrow> Inr (s', meta_molecule', new_mol'))))))"

fun add_blocks_loop ::
  "nat \<Rightarrow> processor \<times> val graph \<times> molecule \<Rightarrow> nat list \<Rightarrow> error + (processor \<times> val graph \<times> molecule)" where
  "add_blocks_loop start_node st [] = Inr st"
| "add_blocks_loop start_node st (node # rest) =
     (case add_block_node start_node st node of
        Inl e \<Rightarrow> Inl e
      | Inr st' \<Rightarrow> add_blocks_loop start_node st' rest)"

text \<open>Lines 176 to 197: the first node in the visiting order.\<close>

definition add_start_node ::
  "processor \<Rightarrow> val graph \<Rightarrow> nat \<Rightarrow> error + (processor \<times> val graph \<times> molecule)" where
  "add_start_node s meta_molecule start_node =
     (case map_of (node_to_block s) start_node of
        None \<Rightarrow> Inl KeyError
      | Some name \<Rightarrow>
          (case lookup_block (force_field s) name of
             Inl e \<Rightarrow> Inl e
           | Inr (_, block) \<Rightarrow>
               (case to_molecule block of
                  Inl e \<Rightarrow> Inl e
                | Inr new_mol \<Rightarrow>
                    (case map_of (gnodes meta_molecule) start_node of
                       None \<Rightarrow> Inl KeyError
                     | Some d \<Rightarrow>
                         (if map_of d ''from_itp'' \<noteq> None
                          then
                            (case map_of (node_to_fragment s) start_node of
                               None \<Rightarrow> Inl KeyError
                             | Some fragment_id \<Rightarrow>
                                 (if fragment_id < length (fragments s)
                                  then
                                    (let correspondence =
                                           map (\<lambda>node. (node, node)) (node_keys (mgraph new_mol));
                                         s' = s\<lparr> added_fragment_nodes :=
                                                   added_fragment_nodes s @ fragments s ! fragment_id,
                                                 multiblock_correspondence :=
                                                   multiblock_correspondence s @ [correspondence] \<rparr>
                                     in case correspondence_to_residue meta_molecule new_mol
                                               correspondence start_node of
                                          Inl e \<Rightarrow> Inl e
                                        | Inr residue \<Rightarrow>
                                            (case set_attr meta_molecule start_node ''graph''
                                                    (VGraph residue) of
                                               Inl e \<Rightarrow> Inl e
                                             | Inr meta_molecule' \<Rightarrow>
                                                 Inr (s', meta_molecule', new_mol)))
                                  else Inl IndexError))
                          else
                            (case set_attr meta_molecule start_node ''graph''
                                    (VGraph (mgraph new_mol)) of
                               Inl e \<Rightarrow> Inl e
                             | Inr meta_molecule' \<Rightarrow> Inr (s, meta_molecule', new_mol)))))))"

definition add_blocks ::
  "processor \<Rightarrow> val graph \<Rightarrow> error + (processor \<times> val graph \<times> molecule)" where
  "add_blocks s meta_molecule =
     (case sorted_node_keys meta_molecule of
        Inl e \<Rightarrow> Inl e
      | Inr [] \<Rightarrow> Inl IndexError
      | Inr (start_node # rest) \<Rightarrow>
          (case add_start_node s meta_molecule start_node of
             Inl e \<Rightarrow> Inl e
           | Inr st \<Rightarrow> add_blocks_loop start_node st rest))"

subsection \<open>\<^verbatim>\<open>MapToMolecule.run_molecule\<close>\<close>

text \<open>
  The first component of the result is the template library as the call leaves it, also
  when the call raises. On success the second component holds the processor, the
  meta-molecule with its \<^verbatim>\<open>graph\<close> attributes, and the molecule stored in its
  \<^verbatim>\<open>molecule\<close> attribute.
\<close>

definition run_molecule ::
  "processor \<Rightarrow> val graph \<Rightarrow> force_field \<times> (error + (processor \<times> val graph \<times> molecule))" where
  "run_molecule s meta_molecule =
     (case match_nodes_to_blocks s meta_molecule of
        Inl e \<Rightarrow> (force_field s, Inl e)
      | Inr s1 \<Rightarrow>
          (case tag_exclusions (node_to_block s1) (force_field s1) of
             (ff, Some e) \<Rightarrow> (ff, Inl e)
           | (ff, None) \<Rightarrow> (ff, add_blocks (s1\<lparr> force_field := ff \<rparr>) meta_molecule)))"

section \<open>Vocabulary of the properties\<close>

text \<open>
  The templates referenced by the nodes: the blocks that the entries of the
  node-to-template mapping resolve to in the library.
\<close>

definition referenced_blocks :: "(nat \<times> val) list \<Rightarrow> force_field \<Rightarrow> molecule list" where
  "referenced_blocks ntb ff =
     concat (map (\<lambda>(node, name). case lookup_block ff name of Inl e \<Rightarrow> [] | Inr (key, b) \<Rightarrow> [b]) ntb)"

text \<open>
  A template after normalisation to the minimum \<open>m\<close>: every atom tagged with the
  template's original \<^verbatim>\<open>nrexcl\<close>, and \<^verbatim>\<open>nrexcl\<close> replaced by \<open>m\<close>.
\<close>

definition tagged :: "int \<Rightarrow> molecule \<Rightarrow> molecule" where
  "tagged m b =
     b\<lparr> mgraph := set_node_attributes (mgraph b) (VInt (nrexcl b)) ''exclude'', nrexcl := m \<rparr>"





text \<open>Reading one attribute of a meta-molecule node.\<close>

definition graph_attr :: "val graph \<Rightarrow> nat \<Rightarrow> val option" where
  "graph_attr meta_molecule n =
     (case map_of (gnodes meta_molecule) n of None \<Rightarrow> None | Some d \<Rightarrow> map_of d ''graph'')"

definition has_from_itp :: "val graph \<Rightarrow> nat \<Rightarrow> bool" where
  "has_from_itp meta_molecule n =
     (case map_of (gnodes meta_molecule) n of None \<Rightarrow> False | Some d \<Rightarrow> map_of d ''from_itp'' \<noteq> None)"



text \<open>The neighbours an adjacency dictionary lists for a node.\<close>

definition nbrs :: "(nat \<times> nat list) list \<Rightarrow> nat \<Rightarrow> nat list" where
  "nbrs adj u = (case map_of adj u of None \<Rightarrow> [] | Some ns \<Rightarrow> ns)"

text \<open>The nodes of a graph together with the targets of its adjacency lists.\<close>

definition graph_support :: "'v graph \<Rightarrow> nat set" where
  "graph_support g = set (node_keys g) \<union> \<Union>(set ` snd ` set (gadj g))"

section \<open>Concrete inputs\<close>

definition one_atom :: "string \<Rightarrow> val graph" where
  "one_atom nm = Graph [(0, [(''atomname'', VStr nm)])] [(0, [])]"

text \<open>Three single-atom templates with \<^verbatim>\<open>nrexcl\<close> 2, 3 and 4, one node on each.\<close>

definition ff234 :: force_field where
  "ff234 = [(''A'', \<lparr> mgraph = one_atom ''a'', nrexcl = 2 \<rparr>),
            (''B'', \<lparr> mgraph = one_atom ''b'', nrexcl = 3 \<rparr>),
            (''C'', \<lparr> mgraph = one_atom ''c'', nrexcl = 4 \<rparr>)]"

definition ntb234 :: "(nat \<times> val) list" where
  "ntb234 = [(0, VStr ''A''), (1, VStr ''B''), (2, VStr ''C'')]"

text \<open>Two templates that agree on \<^verbatim>\<open>nrexcl\<close>.\<close>

definition ff33 :: force_field where
  "ff33 = [(''A'', \<lparr> mgraph = one_atom ''a'', nrexcl = 3 \<rparr>),
           (''B'', \<lparr> mgraph = one_atom ''b'', nrexcl = 3 \<rparr>)]"

definition ntb33 :: "(nat \<times> val) list" where
  "ntb33 = [(0, VStr ''A''), (1, VStr ''B''), (2, VStr ''A'')]"

text \<open>Atoms and meta-molecule nodes as the readers produce them.\<close>

definition atom_named :: "string \<Rightarrow> int \<Rightarrow> attrs" where
  "atom_named nm r = [(''atomname'', VStr nm), (''resid'', VInt r)]"

definition plain_node :: "string \<Rightarrow> int \<Rightarrow> attrs" where
  "plain_node nm r = [(''resname'', VStr nm), (''resid'', VInt r)]"

definition itp_node :: "string \<Rightarrow> int \<Rightarrow> string \<Rightarrow> attrs" where
  "itp_node nm r f = [(''resname'', VStr nm), (''resid'', VInt r), (''from_itp'', VStr f)]"

text \<open>
  A library with two two-residue templates \<open>X\<close> and \<open>Y\<close> and a single-residue
  template \<open>A\<close>, all with the same \<^verbatim>\<open>nrexcl\<close>.
\<close>

definition blockX :: molecule where
  "blockX = \<lparr> mgraph = Graph [(0, atom_named ''a'' 1), (1, atom_named ''b'' 2)] [(0, [1]), (1, [0])],
              nrexcl = 3 \<rparr>"

definition blockY :: molecule where
  "blockY = \<lparr> mgraph = Graph [(0, atom_named ''c'' 1), (1, atom_named ''d'' 2)] [(0, [1]), (1, [0])],
              nrexcl = 3 \<rparr>"

definition blockA :: molecule where
  "blockA = \<lparr> mgraph = Graph [(0, atom_named ''e'' 1), (1, atom_named ''f'' 1)] [(0, [1]), (1, [0])],
              nrexcl = 3 \<rparr>"

definition ff0 :: force_field where
  "ff0 = [(''X'', blockX), (''Y'', blockY), (''A'', blockA)]"


text \<open>Two single residues \<open>A\<close>.\<close>

definition meta_AA :: "val graph" where
  "meta_AA = Graph [(0, plain_node ''A'' 1), (1, plain_node ''A'' 2)] [(0, [1]), (1, [0])]"



text \<open>The processor after classification of \<open>meta_AA\<close>.\<close>

definition proc_AA :: processor where
  "proc_AA = \<lparr> node_to_block = [(0, VStr ''A''), (1, VStr ''A'')], node_to_fragment = [],
               fragments = [], multiblock_correspondence = [], added_fragments = [],
               added_fragment_nodes = [], force_field = ff0 \<rparr>"

text \<open>
  A chain of five residues: a fragment of template \<open>X\<close>, a single residue \<open>A\<close>, and a
  fragment of template \<open>Y\<close>.
\<close>

definition meta_XXAYY :: "val graph" where
  "meta_XXAYY = Graph [(0, itp_node ''P'' 1 ''X''), (1, itp_node ''Q'' 2 ''X''), (2, plain_node ''A'' 3),
                       (3, itp_node ''R'' 4 ''Y''), (4, itp_node ''S'' 5 ''Y'')]
                      [(0, [1]), (1, [0, 2]), (2, [1, 3]), (3, [2, 4]), (4, [3])]"

text \<open>A single residue, and two bonded residues beside an isolated one.\<close>

definition meta_single :: "val graph" where
  "meta_single = Graph [(0, plain_node ''A'' 1)] [(0, [])]"

definition meta_AA_isolated :: "val graph" where
  "meta_AA_isolated = Graph [(0, plain_node ''A'' 1), (1, plain_node ''A'' 2), (2, plain_node ''A'' 3)]
                            [(0, [1]), (1, [0]), (2, [])]"

text \<open>A single residue \<open>A\<close> followed by a fragment of template \<open>X\<close>.\<close>

definition meta_AXX :: "val graph" where
  "meta_AXX = Graph [(0, plain_node ''A'' 1), (1, itp_node ''P'' 2 ''X''), (2, itp_node ''Q'' 3 ''X'')]
                    [(0, [1]), (1, [0, 2]), (2, [1])]"

text \<open>
  Four residues with the bonds 0-1, 1-2, 2-3 and 3-1. Residues 0 and 1 name template
  \<open>X\<close>, residue 3 names template \<open>Y\<close>; the bond 3-1 closes a ring and is not a tree edge
  of the depth-first search.
\<close>

definition meta_cycle :: "val graph" where
  "meta_cycle = Graph [(0, itp_node ''P'' 1 ''X''), (1, itp_node ''Q'' 2 ''X''),
                       (2, plain_node ''A'' 3), (3, itp_node ''A'' 4 ''Y'')]
                      [(0, [1]), (1, [0, 2, 3]), (2, [1, 3]), (3, [2, 1])]"

text \<open>Two bonded residues that name different templates.\<close>

definition meta_XY :: "val graph" where
  "meta_XY = Graph [(0, itp_node ''P'' 1 ''X''), (1, itp_node ''Q'' 2 ''Y'')] [(0, [1]), (1, [0])]"

section \<open>Dictionaries and lookups\<close>

lemma set_alist_update: "set (AList.update k v al) \<subseteq> insert (k, v) (set al)"
  by (induction al) auto

lemma remdups_all_equal:
  assumes "\<And>x y. x \<in> set xs \<Longrightarrow> y \<in> set xs \<Longrightarrow> x = y"
  shows "length (remdups xs) \<le> 1"
proof (cases xs)
  case Nil
  then show ?thesis by simp
next
  case (Cons a as)
  then have "set xs \<subseteq> {a}" using assms by auto
  then have "card (set xs) \<le> card {a}" by (intro card_mono) simp_all
  then show ?thesis by (simp add: length_remdups_card_conv)
qed

lemma lookup_block_Inr:
  "lookup_block ff name = Inr (key, b) \<longleftrightarrow> name = VStr key \<and> map_of ff key = Some b"
  by (auto simp: lookup_block_def split: val.splits option.splits)

lemma referenced_blocksI:
  "map_of ntb n = Some name \<Longrightarrow> lookup_block ff name = Inr (key, b)
     \<Longrightarrow> b \<in> set (referenced_blocks ntb ff)"
  unfolding referenced_blocks_def
  by (force dest: map_of_SomeD)




lemma map_of_Some_in_keys: "map_of al k = Some v \<Longrightarrow> k \<in> fst ` set al"
  by (force dest: map_of_SomeD)

lemma add_node_props:
  "gadj (add_node g a data) = (if map_of (gnodes g) a = None then gadj g @ [(a, [])] else gadj g)"
  "set (node_keys (add_node g a data)) = insert a (set (node_keys g))"
  "map_of (gnodes (add_node g a data)) b =
     (if b = a then Some (dict_update (case map_of (gnodes g) a of None \<Rightarrow> [] | Some old \<Rightarrow> old) data)
      else map_of (gnodes g) b)"
  by (auto simp: add_node_def node_keys_def update_conv' dom_update map_add_def
      dest: map_of_Some_in_keys split: option.splits)


section \<open>Exclusion normalisation\<close>

text \<open>The first loop of \<^verbatim>\<open>tag_exclusions\<close> records, for every key, the \<^verbatim>\<open>nrexcl\<close> of its block.\<close>

lemma collect_excls_values:
  "collect_excls ntb ff ks acc = Inr excls \<Longrightarrow> (n, x) \<in> set excls \<Longrightarrow>
     (n, x) \<in> set acc \<or>
     (\<exists>name key b. map_of ntb n = Some name \<and> lookup_block ff name = Inr (key, b) \<and> x = nrexcl b)"
proof (induction ks arbitrary: acc)
  case Nil
  then show ?case by simp
next
  case (Cons k ks)
  from Cons.prems(1) obtain name key b where
    nm: "map_of ntb k = Some name" and lb: "lookup_block ff name = Inr (key, b)"
    and rest: "collect_excls ntb ff ks (AList.update k (nrexcl b) acc) = Inr excls"
    by (auto split: option.splits sum.splits)
  from Cons.IH[OF rest Cons.prems(2)] show ?case
  proof
    assume "(n, x) \<in> set (AList.update k (nrexcl b) acc)"
    then have "(n, x) = (k, nrexcl b) \<or> (n, x) \<in> set acc"
      using set_alist_update by fastforce
    then show ?thesis using nm lb by auto
  qed blast
qed

lemma collect_excls_complete:
  "collect_excls ntb ff ks acc = Inr excls \<Longrightarrow> k \<in> set ks \<Longrightarrow>
     \<exists>name key b. map_of ntb k = Some name \<and> lookup_block ff name = Inr (key, b) \<and>
        map_of excls k = Some (nrexcl b)"
 and collect_excls_other:
  "collect_excls ntb ff ks acc = Inr excls \<Longrightarrow> k \<notin> set ks \<Longrightarrow> map_of excls k = map_of acc k"
proof (induction ks arbitrary: acc)
  case Nil
  { case 1 then show ?case by simp }
  { case 2 then show ?case by simp }
next
  case (Cons a ks)
  { case 1
    from 1(1) obtain name key b where
      nm: "map_of ntb a = Some name" and lb: "lookup_block ff name = Inr (key, b)"
      and rest: "collect_excls ntb ff ks (AList.update a (nrexcl b) acc) = Inr excls"
      by (auto split: option.splits sum.splits)
    show ?case
    proof (cases "k \<in> set ks")
      case True
      then show ?thesis using Cons.IH(1)[OF rest] by simp
    next
      case False
      then have "k = a" using 1(2) by simp
      moreover have "map_of excls k = map_of (AList.update a (nrexcl b) acc) k"
        using Cons.IH(2)[OF rest False] .
      ultimately show ?thesis using nm lb by (simp add: update_conv')
    qed }
  { case 2
    from 2(1) obtain name key b where
      "map_of ntb a = Some name" "lookup_block ff name = Inr (key, b)" and
      rest: "collect_excls ntb ff ks (AList.update a (nrexcl b) acc) = Inr excls"
      by (auto split: option.splits sum.splits)
    show ?case using Cons.IH(2)[OF rest] 2(2) by (simp add: update_conv') }
qed

lemma snd_tag_exclusions_None:
  assumes "snd (tag_exclusions ntb ff) = None"
  obtains excls where "collect_excls ntb ff (map fst ntb) [] = Inr excls"
  using assms by (cases "collect_excls ntb ff (map fst ntb) []") (auto simp: tag_exclusions_def)

lemma excls_values:
  assumes d: "distinct (map fst ntb)" and c: "collect_excls ntb ff (map fst ntb) [] = Inr excls"
  shows "set (map snd excls) = set (map nrexcl (referenced_blocks ntb ff))"
proof (intro set_eqI iffI)
  fix x assume "x \<in> set (map snd excls)"
  then obtain n where "(n, x) \<in> set excls" by auto
  from collect_excls_values[OF c this] show "x \<in> set (map nrexcl (referenced_blocks ntb ff))"
    using referenced_blocksI by fastforce
next
  fix x assume "x \<in> set (map nrexcl (referenced_blocks ntb ff))"
  then obtain n name key b where in_ntb: "(n, name) \<in> set ntb"
    and lb: "lookup_block ff name = Inr (key, b)" and x: "x = nrexcl b"
    by (auto simp: referenced_blocks_def split: sum.splits) (metis)
  from in_ntb d have "map_of ntb n = Some name" by simp
  moreover from in_ntb have "n \<in> set (map fst ntb)" by force
  ultimately have "map_of excls n = Some (nrexcl b)"
    using collect_excls_complete[OF c, of n] lb by auto
  then have "(n, x) \<in> set excls" using x by (auto dest: map_of_SomeD)
  then show "x \<in> set (map snd excls)" by force
qed

text \<open>
  The second loop: a block is tagged when the first of its nodes is reached, and tagging
  it again for a later node of the same block changes nothing, because the value comes
  from the record made before the loop.
\<close>

lemma set_node_attributes_idem:
  "set_node_attributes (set_node_attributes g v name) v name = set_node_attributes g v name"
  by (simp add: set_node_attributes_def case_prod_beta)

lemma tag_loop_result:
  assumes "\<And>k. map_of ff k = (if k \<in> T then map_option (tagged m) (map_of orig k) else map_of orig k)"
    and "\<And>n x. (n, x) \<in> set excls \<Longrightarrow>
           \<exists>key b_orig. map_of ntb n = Some (VStr key) \<and> map_of orig key = Some b_orig \<and> x = nrexcl b_orig"
  shows "\<exists>ff'. tag_loop ntb m excls ff = (ff', None) \<and>
           (\<forall>k. map_of ff' k =
                  (if k \<in> T \<union> {key. \<exists>n x. (n, x) \<in> set excls \<and> map_of ntb n = Some (VStr key)}
                   then map_option (tagged m) (map_of orig k) else map_of orig k))"
  using assms
proof (induction excls arbitrary: ff T)
  case Nil
  then show ?case by simp
next
  case (Cons p excls)
  obtain n x where p: "p = (n, x)" by (cases p)
  from Cons.prems(2)[of n x] p obtain key b_orig where
    nm: "map_of ntb n = Some (VStr key)" and b_orig: "map_of orig key = Some b_orig" and x: "x = nrexcl b_orig"
    by auto
  define b where "b = (if key \<in> T then tagged m b_orig else b_orig)"
  have lb: "lookup_block ff (VStr key) = Inr (key, b)"
    using Cons.prems(1)[of key] b_orig by (simp add: lookup_block_Inr b_def)
  have new: "b\<lparr> mgraph := set_node_attributes (mgraph b) (VInt x) ''exclude'', nrexcl := m \<rparr>
               = tagged m b_orig"
    by (simp add: b_def tagged_def x set_node_attributes_idem)
  let ?ff = "AList.update key (tagged m b_orig) ff"
  have step: "tag_loop ntb m (p # excls) ff = tag_loop ntb m excls ?ff"
    by (simp add: p nm lb new)
  have inv: "\<And>k. map_of ?ff k =
       (if k \<in> insert key T then map_option (tagged m) (map_of orig k) else map_of orig k)"
    using Cons.prems(1) b_orig by (simp add: update_conv')
  have res: "\<exists>ff'. tag_loop ntb m excls ?ff = (ff', None) \<and>
           (\<forall>k. map_of ff' k =
                  (if k \<in> insert key T \<union>
                          {key. \<exists>n x. (n, x) \<in> set excls \<and> map_of ntb n = Some (VStr key)}
                   then map_option (tagged m) (map_of orig k) else map_of orig k))"
    by (rule Cons.IH[OF inv]) (use Cons.prems(2) in auto)
  have eq: "insert key T \<union> {key. \<exists>n x. (n, x) \<in> set excls \<and> map_of ntb n = Some (VStr key)}
      = T \<union> {key. \<exists>n x. (n, x) \<in> set (p # excls) \<and> map_of ntb n = Some (VStr key)}"
    using nm p by auto
  show ?case unfolding step eq[symmetric] by (rule res)
qed

lemma tag_exclusions_tags:
  assumes d: "distinct (map fst ntb)" and c: "collect_excls ntb ff (map fst ntb) [] = Inr excls"
    and many: "length (remdups (map snd excls)) > 1"
    and ent: "(n, name) \<in> set ntb"
  shows "\<exists>key b. name = VStr key \<and> map_of ff key = Some b \<and>
           map_of (fst (tag_exclusions ntb ff)) key = Some (tagged (Min (set (map snd excls))) b)"
proof -
  let ?m = "Min (set (map snd excls))"
  have pre: "\<And>n x. (n, x) \<in> set excls \<Longrightarrow>
           \<exists>key b0. map_of ntb n = Some (VStr key) \<and> map_of ff key = Some b0 \<and> x = nrexcl b0"
    using collect_excls_values[OF c] by (fastforce simp: lookup_block_Inr)
  have "\<exists>ff'. tag_loop ntb ?m excls ff = (ff', None) \<and>
           (\<forall>k. map_of ff' k =
                  (if k \<in> {} \<union> {key. \<exists>n x. (n, x) \<in> set excls \<and> map_of ntb n = Some (VStr key)}
                   then map_option (tagged ?m) (map_of ff k) else map_of ff k))"
    by (rule tag_loop_result) (use pre in auto)
  then obtain ff' where loop: "tag_loop ntb ?m excls ff = (ff', None)"
    and res: "\<And>k. map_of ff' k =
                  (if k \<in> {key. \<exists>n x. (n, x) \<in> set excls \<and> map_of ntb n = Some (VStr key)}
                   then map_option (tagged ?m) (map_of ff k) else map_of ff k)"
    by auto
  have te: "tag_exclusions ntb ff = (ff', None)"
    using c many loop by (simp add: tag_exclusions_def)
  from ent d have nm: "map_of ntb n = Some name" by simp
  from ent have "n \<in> set (map fst ntb)" by force
  from collect_excls_complete[OF c this] nm obtain key b where
    lb: "lookup_block ff name = Inr (key, b)" and ex: "map_of excls n = Some (nrexcl b)"
    by auto
  from lb have name: "name = VStr key" and b: "map_of ff key = Some b"
    by (simp_all add: lookup_block_Inr)
  from ex have "(n, nrexcl b) \<in> set excls" by (rule map_of_SomeD)
  then have "key \<in> {key. \<exists>n x. (n, x) \<in> set excls \<and> map_of ntb n = Some (VStr key)}"
    using nm name by auto
  then have "map_of ff' key = Some (tagged ?m b)"
    using res[of key] b by simp
  then show ?thesis using name b te by simp
qed

lemma tagged_exclude:
  "list_all (\<lambda>(a, d). map_of d ''exclude'' = Some (VInt (nrexcl b))) (gnodes (mgraph (tagged m b)))"
  by (simp add: tagged_def set_node_attributes_def list_all_iff update_conv' case_prod_beta)

lemma tag_exclusions_234:
  "tag_exclusions ntb234 ff234 =
     ([(''A'', \<lparr> mgraph = Graph [(0, [(''atomname'', VStr ''a''), (''exclude'', VInt 2)])] [(0, [])],
                 nrexcl = 2 \<rparr>),
       (''B'', \<lparr> mgraph = Graph [(0, [(''atomname'', VStr ''b''), (''exclude'', VInt 3)])] [(0, [])],
                 nrexcl = 2 \<rparr>),
       (''C'', \<lparr> mgraph = Graph [(0, [(''atomname'', VStr ''c''), (''exclude'', VInt 4)])] [(0, [])],
                 nrexcl = 2 \<rparr>)], None)"
  by (simp add: tag_exclusions_def ntb234_def ff234_def lookup_block_def one_atom_def
      set_node_attributes_def)

lemma referenced_234: "map nrexcl (referenced_blocks ntb234 ff234) = [2, 3, 4]"
  by (simp add: referenced_blocks_def ntb234_def ff234_def lookup_block_def)

text \<open>
  C1, as stated, fails. The library \<open>ff234\<close> holds templates with \<^verbatim>\<open>nrexcl\<close> 2, 3 and
  4. After \<^verbatim>\<open>tag_exclusions\<close> the atom of template \<open>A\<close>, whose \<^verbatim>\<open>nrexcl\<close> was
  already 2, carries \<^verbatim>\<open>exclude\<close> = 2: the loop of lines 37 to 40 tags the blocks of all
  nodes, as the docstring says ("tag all nodes with the original exclusion number").
\<close>

theorem tag_exclusions_tags_minimum_template:
  "map nrexcl (referenced_blocks ntb234 ff234) = [2, 3, 4] \<and>
   map_option nrexcl (map_of ff234 ''A'') = Some 2 \<and>
   map_option (\<lambda>b. map (\<lambda>(a, d). map_of d ''exclude'') (gnodes (mgraph b)))
     (map_of (fst (tag_exclusions ntb234 ff234)) ''A'') = Some [Some (VInt 2)]"
  by (simp add: tag_exclusions_234 referenced_234) (simp add: ff234_def)

text \<open>
  C1, amended. Let the node-to-template mapping be a dictionary whose templates carry
  the \<^verbatim>\<open>nrexcl\<close> values 2, 3 and 4, and let \<^verbatim>\<open>tag_exclusions\<close> complete. Then for
  every node, its template exists, its \<^verbatim>\<open>nrexcl\<close> is 2 afterwards, and every atom of
  the template carries \<^verbatim>\<open>exclude\<close> equal to the template's original \<^verbatim>\<open>nrexcl\<close>:
  3 or 4 for the templates that were at 3 or 4, and 2 for the template that was at 2.
\<close>

theorem tag_exclusions_values_2_3_4:
  assumes "distinct (map fst ntb)"
    and "snd (tag_exclusions ntb ff) = None"
    and "set (map nrexcl (referenced_blocks ntb ff)) = {2, 3, 4}"
    and "(n, name) \<in> set ntb"
  shows "\<exists>key b b'. name = VStr key \<and> map_of ff key = Some b \<and> nrexcl b \<in> {2, 3, 4} \<and>
           map_of (fst (tag_exclusions ntb ff)) key = Some b' \<and> nrexcl b' = 2 \<and>
           list_all (\<lambda>(a, d). map_of d ''exclude'' = Some (VInt (nrexcl b))) (gnodes (mgraph b'))"
proof -
  from assms(2) obtain excls where c: "collect_excls ntb ff (map fst ntb) [] = Inr excls"
    by (rule snd_tag_exclusions_None)
  have vals: "set (map snd excls) = {2, 3, 4}"
    using excls_values[OF assms(1) c] assms(3) by simp
  have "card (set (map snd excls)) = 3" unfolding vals by simp
  then have many: "length (remdups (map snd excls)) > 1"
    by (simp add: length_remdups_card_conv)
  have min: "Min (set (map snd excls)) = 2" unfolding vals by simp
  from tag_exclusions_tags[OF assms(1) c many assms(4)] obtain key b where
    name: "name = VStr key" and b: "map_of ff key = Some b"
    and b': "map_of (fst (tag_exclusions ntb ff)) key = Some (tagged 2 b)"
    unfolding min by auto
  have "b \<in> set (referenced_blocks ntb ff)"
    using assms(1,4) name b
    by (intro referenced_blocksI[of ntb n name ff key]) (simp_all add: lookup_block_Inr)
  then have "nrexcl b \<in> {2, 3, 4}" using assms(3) by auto
  moreover have "nrexcl (tagged 2 b) = 2" by (simp add: tagged_def)
  ultimately show ?thesis using name b b' tagged_exclude[of b 2] by blast
qed

theorem tag_exclusions_values_2_3_4_witness:
  "distinct (map fst ntb234) \<and> snd (tag_exclusions ntb234 ff234) = None \<and>
   set (map nrexcl (referenced_blocks ntb234 ff234)) = {2, 3, 4} \<and> (1, VStr ''B'') \<in> set ntb234 \<and>
   (\<exists>key b b'. VStr ''B'' = VStr key \<and> map_of ff234 key = Some b \<and> nrexcl b \<in> {2, 3, 4} \<and>
      map_of (fst (tag_exclusions ntb234 ff234)) key = Some b' \<and> nrexcl b' = 2 \<and>
      list_all (\<lambda>(a, d). map_of d ''exclude'' = Some (VInt (nrexcl b))) (gnodes (mgraph b')))"
proof -
  have h1: "distinct (map fst ntb234)" by (simp add: ntb234_def)
  have h2: "snd (tag_exclusions ntb234 ff234) = None" by (simp add: tag_exclusions_234)
  have h3: "set (map nrexcl (referenced_blocks ntb234 ff234)) = {2, 3, 4}"
    by (simp add: referenced_234)
  have h4: "(1, VStr ''B'') \<in> set ntb234" by (simp add: ntb234_def)
  show ?thesis using h1 h2 h3 h4 tag_exclusions_values_2_3_4[OF h1 h2 h3 h4] by blast
qed

text \<open>
  C6. If all templates referenced by the nodes share one \<^verbatim>\<open>nrexcl\<close>, then
  \<^verbatim>\<open>tag_exclusions\<close> leaves the library as it was: no \<^verbatim>\<open>nrexcl\<close> changes and no
  \<^verbatim>\<open>exclude\<close> attribute appears. This holds whether or not a lookup raises.
\<close>

theorem tag_exclusions_uniform_noop:
  assumes "\<forall>b\<in>set (referenced_blocks ntb ff). \<forall>b'\<in>set (referenced_blocks ntb ff).
             nrexcl b = nrexcl b'"
  shows "fst (tag_exclusions ntb ff) = ff"
proof (cases "collect_excls ntb ff (map fst ntb) []")
  case (Inl e)
  then show ?thesis by (simp add: tag_exclusions_def)
next
  case (Inr excls)
  have "length (remdups (map snd excls)) \<le> 1"
  proof (rule remdups_all_equal)
    fix x y assume "x \<in> set (map snd excls)" "y \<in> set (map snd excls)"
    then obtain n n' where "(n, x) \<in> set excls" "(n', y) \<in> set excls" by auto
    then obtain b b' where "b \<in> set (referenced_blocks ntb ff)" "x = nrexcl b"
        "b' \<in> set (referenced_blocks ntb ff)" "y = nrexcl b'"
      using collect_excls_values[OF Inr] referenced_blocksI by (metis empty_iff list.set(1))
    then show "x = y" using assms by blast
  qed
  then show ?thesis using Inr by (simp add: tag_exclusions_def)
qed

theorem tag_exclusions_uniform_noop_witness:
  "map nrexcl (referenced_blocks ntb33 ff33) = [3, 3, 3] \<and>
   tag_exclusions ntb33 ff33 = (ff33, None)"
proof -
  have r: "map nrexcl (referenced_blocks ntb33 ff33) = [3, 3, 3]"
    by (simp add: referenced_blocks_def ntb33_def ff33_def lookup_block_def)
  have h: "\<forall>b\<in>set (referenced_blocks ntb33 ff33). \<forall>b'\<in>set (referenced_blocks ntb33 ff33).
      nrexcl b = nrexcl b'"
    by (simp add: referenced_blocks_def ntb33_def ff33_def lookup_block_def)
  have "snd (tag_exclusions ntb33 ff33) = None"
    by (simp add: tag_exclusions_def ntb33_def ff33_def lookup_block_def)
  then show ?thesis using h r tag_exclusions_uniform_noop[OF h]
    by (metis prod.collapse)
qed

section \<open>Residue extraction\<close>







section \<open>The visiting order\<close>

lemma map_of_concat_keys:
  assumes "\<And>k. f k = (case h k of None \<Rightarrow> [] | Some v \<Rightarrow> [(k, v)])"
  shows "map_of (concat (map f ks)) n = (if n \<in> set ks then h n else None)"
proof (induction ks)
  case Nil
  then show ?case by simp
next
  case (Cons k ks)
  then show ?case by (cases "h k") (auto simp: assms)
qed

lemma map_of_get_node_attributes:
  "map_of (get_node_attributes g name) n =
     (case map_of (gnodes g) n of None \<Rightarrow> None | Some d \<Rightarrow> map_of d name)"
proof -
  let ?h = "\<lambda>n. case map_of (gnodes g) n of None \<Rightarrow> None | Some d \<Rightarrow> map_of d name"
  have "map_of (get_node_attributes g name) n = (if n \<in> set (node_keys g) then ?h n else None)"
    unfolding get_node_attributes_def
    by (rule map_of_concat_keys) (auto split: option.splits)
  moreover have "n \<notin> set (node_keys g) \<Longrightarrow> map_of (gnodes g) n = None"
    by (simp add: node_keys_def map_of_eq_None_iff)
  ultimately show ?thesis by (auto split: option.splits)
qed

lemma lookup_all_eq:
  "lookup_all d ks =
     (if \<exists>k\<in>set ks. map_of d k = None then Inl KeyError else Inr (map (\<lambda>k. the (map_of d k)) ks))"
  by (induction ks) (auto split: option.splits)











section \<open>Attributes that stay on the meta-molecule\<close>




lemma gnodes_add_neighbor [simp]: "gnodes (add_neighbor g u v) = gnodes g"
  by (simp add: add_neighbor_def)











lemma set_attr_props:
  assumes "set_attr g n name v = Inr g'"
  shows "\<exists>d. map_of (gnodes g) n = Some d \<and> map_of (gnodes g') n = Some (AList.update name v d)"
    and "b \<noteq> n \<Longrightarrow> map_of (gnodes g') b = map_of (gnodes g) b"
    and "set (node_keys g') = set (node_keys g)"
proof -
  from assms obtain d where d: "map_of (gnodes g) n = Some d"
    and g': "g' = Graph (AList.update n (AList.update name v d) (gnodes g)) (gadj g)"
    by (auto simp: set_attr_def split: option.splits)
  show "\<exists>d. map_of (gnodes g) n = Some d \<and> map_of (gnodes g') n = Some (AList.update name v d)"
    using d g' by (simp add: update_conv')
  show "b \<noteq> n \<Longrightarrow> map_of (gnodes g') b = map_of (gnodes g) b"
    using g' by (simp add: update_conv')
  have "n \<in> fst ` set (gnodes g)" using d by (rule map_of_Some_in_keys)
  then show "set (node_keys g') = set (node_keys g)"
    using g' by (simp add: node_keys_def dom_update insert_absorb)
qed

lemma set_graph_attr:
  assumes "set_attr meta n ''graph'' v = Inr meta'"
  shows "graph_attr meta' b = (if b = n then Some v else graph_attr meta b)"
    and "has_from_itp meta' b = has_from_itp meta b"
proof -
  from set_attr_props(1)[OF assms] obtain d where
    d: "map_of (gnodes meta) n = Some d" "map_of (gnodes meta') n = Some (AList.update ''graph'' v d)"
    by blast
  have o: "b \<noteq> n \<Longrightarrow> map_of (gnodes meta') b = map_of (gnodes meta) b"
    by (rule set_attr_props(2)[OF assms])
  show "graph_attr meta' b = (if b = n then Some v else graph_attr meta b)"
    using d o by (cases "b = n") (simp_all add: graph_attr_def update_conv')
  show "has_from_itp meta' b = has_from_itp meta b"
    using d o by (cases "b = n") (simp_all add: has_from_itp_def update_conv')
qed









lemma force_field_assign_fragment [simp]:
  "force_field (assign_fragment s name fragment) = force_field s"
  unfolding assign_fragment_def by (induction fragment arbitrary: s) auto




lemma match_AA: "match_nodes_to_blocks (init ff0) meta_AA = Inr proc_AA"
  by code_simp








section \<open>Classification\<close>

lemma dfs_loop_visited:
  "set visited \<subseteq> set (fst (dfs_loop adj stack visited out))"
  by (induction adj stack visited out rule: dfs_loop.induct) auto

lemma dfs_loop_visited_within:
  "set (fst (dfs_loop adj stack visited out))
     \<subseteq> set visited \<union> \<Union>(set ` snd ` set stack) \<union> \<Union>(set ` snd ` set adj)"
proof (induction adj stack visited out rule: dfs_loop.induct)
  case (1 adj visited out)
  then show ?case by simp
next
  case (2 adj parent stack visited out)
  then show ?case by auto
next
  case (3 adj parent child children stack visited out)
  have ns: "set (case map_of adj child of None \<Rightarrow> [] | Some ns \<Rightarrow> ns) \<subseteq> \<Union>(set ` snd ` set adj)"
  proof (cases "map_of adj child")
    case None
    then show ?thesis by simp
  next
    case (Some ns)
    then have "(child, ns) \<in> set adj" by (rule map_of_SomeD)
    then show ?thesis using Some by force
  qed
  show ?case
  proof (cases "child \<in> set visited")
    case True
    then show ?thesis using 3(1) by auto
  next
    case False
    then show ?thesis using 3(2)[OF False] ns by (simp add: subset_iff) blast
  qed
qed

lemma components_from_nonempty: "f \<in> set (components_from adj ks seen) \<Longrightarrow> f \<noteq> []"
proof (induction ks arbitrary: seen)
  case Nil
  then show ?case by simp
next
  case (Cons v ks)
  then show ?case
    using dfs_loop_visited[of "[v]" adj "[(v, (case map_of adj v of None \<Rightarrow> [] | Some ns \<Rightarrow> ns))]" "[]"]
    by (auto simp: Let_def split: if_splits)
qed

lemma components_from_within:
  "f \<in> set (components_from adj ks seen) \<Longrightarrow> set f \<subseteq> set ks \<union> \<Union>(set ` snd ` set adj)"
proof (induction ks arbitrary: seen)
  case Nil
  then show ?case by simp
next
  case (Cons v ks)
  let ?ns = "case map_of adj v of None \<Rightarrow> [] | Some ns \<Rightarrow> ns"
  have ns: "set ?ns \<subseteq> \<Union>(set ` snd ` set adj)"
  proof (cases "map_of adj v")
    case None
    then show ?thesis by simp
  next
    case (Some ns)
    then have "(v, ns) \<in> set adj" by (rule map_of_SomeD)
    then show ?thesis using Some by force
  qed
  have c: "set (fst (dfs_loop adj [(v, ?ns)] [v] [])) \<subseteq> set (v # ks) \<union> \<Union>(set ` snd ` set adj)"
    using dfs_loop_visited_within[of adj "[(v, ?ns)]" "[v]" "[]"] ns by auto
  show ?case
  proof (cases "v \<in> set seen")
    case True
    then show ?thesis using Cons by auto
  next
    case False
    then have "f = fst (dfs_loop adj [(v, ?ns)] [v] []) \<or>
               f \<in> set (components_from adj ks (seen @ fst (dfs_loop adj [(v, ?ns)] [v] [])))"
      using Cons.prems by (auto simp: Let_def)
    then show ?thesis using c Cons.IH by auto
  qed
qed

lemma support_add_node: "graph_support (add_node g n data) = insert n (graph_support g)"
  by (auto simp: graph_support_def add_node_props split: if_splits)

lemma support_add_neighbor: "graph_support (add_neighbor g u v) \<subseteq> insert v (graph_support g)"
proof (cases "v \<in> set (neighbors g u)")
  case True
  then show ?thesis by (auto simp: add_neighbor_def)
next
  case False
  have "\<Union>(set ` snd ` set (AList.update u (neighbors g u @ [v]) (gadj g)))
          \<subseteq> insert v (\<Union>(set ` snd ` set (gadj g)) \<union> set (neighbors g u))"
    using set_alist_update[of u "neighbors g u @ [v]" "gadj g"] by auto
  moreover have "set (neighbors g u) \<subseteq> \<Union>(set ` snd ` set (gadj g))"
  proof (cases "map_of (gadj g) u")
    case None
    then show ?thesis by (simp add: neighbors_def)
  next
    case (Some ns)
    then have "(u, ns) \<in> set (gadj g)" by (rule map_of_SomeD)
    then show ?thesis using Some by (force simp: neighbors_def)
  qed
  ultimately show ?thesis using False
    by (auto simp: add_neighbor_def graph_support_def node_keys_def)
qed

lemma support_add_edge: "graph_support (add_edge g u v) \<subseteq> {u, v} \<union> graph_support g"
proof -
  let ?g1 = "if has_node g u then g else add_node g u []"
  let ?g2 = "if has_node ?g1 v then ?g1 else add_node ?g1 v []"
  have 1: "graph_support ?g1 \<subseteq> {u, v} \<union> graph_support g"
    by (auto simp: support_add_node)
  have 2: "graph_support ?g2 \<subseteq> {u, v} \<union> graph_support g"
    using 1 by (auto simp: support_add_node)
  have a: "graph_support (add_neighbor ?g2 u v) \<subseteq> insert v (graph_support ?g2)"
    by (rule support_add_neighbor)
  have b: "graph_support (add_neighbor (add_neighbor ?g2 u v) v u)
             \<subseteq> insert u (graph_support (add_neighbor ?g2 u v))"
    by (rule support_add_neighbor)
  have "graph_support (add_neighbor (add_neighbor ?g2 u v) v u) \<subseteq> {u, v} \<union> graph_support ?g2"
    using a b by blast
  then show ?thesis using 2 unfolding add_edge_def Let_def by blast
qed

lemma support_restart_graph:
  "graph_support (snd (fold (\<lambda>(idx, jdx) (regular_graph, restart_graph).
             if map_of ra idx \<noteq> None \<and> map_of ra jdx \<noteq> None
             then (regular_graph, add_edge restart_graph idx jdx)
             else (add_edge regular_graph idx jdx, restart_graph)) es (reg, res)))
     \<subseteq> graph_support res \<union> {n. map_of ra n \<noteq> None}"
proof (induction es arbitrary: reg res)
  case Nil
  then show ?case by simp
next
  case (Cons e es)
  obtain idx jdx where e: "e = (idx, jdx)" by (cases e)
  show ?case
  proof (cases "map_of ra idx \<noteq> None \<and> map_of ra jdx \<noteq> None")
    case True
    then show ?thesis
      using Cons.IH[of reg "add_edge res idx jdx"] support_add_edge[of res idx jdx] e
      by (simp add: subset_iff) blast
  next
    case False
    then show ?thesis using Cons.IH[of "add_edge reg idx jdx" res] e by auto
  qed
qed

lemma restart_graph_from_itp:
  "n \<in> graph_support (restart_graph_of m) \<Longrightarrow> has_from_itp m n"
proof -
  assume "n \<in> graph_support (restart_graph_of m)"
  then have "n \<in> graph_support (empty_graph :: val graph) \<union> {n. map_of (restart_attr_of m) n \<noteq> None}"
    using support_restart_graph[of "restart_attr_of m" "dfs_edges m" empty_graph empty_graph]
    unfolding restart_graph_of_def classify_edges_def by blast
  then have "map_of (restart_attr_of m) n \<noteq> None"
    by (simp add: graph_support_def empty_graph_def node_keys_def)
  then show ?thesis
    by (simp add: restart_attr_of_def map_of_get_node_attributes has_from_itp_def split: option.splits)
qed

lemma components_in_support:
  "f \<in> set (connected_components g) \<Longrightarrow> set f \<subseteq> graph_support g"
  unfolding connected_components_def graph_support_def by (rule components_from_within)

lemma assign_fragment_keys:
  "fst ` set (node_to_fragment (assign_fragment s name fragment))
     \<subseteq> fst ` set (node_to_fragment s) \<union> set fragment"
  unfolding assign_fragment_def
proof (induction fragment arbitrary: s)
  case Nil
  then show ?case by simp
next
  case (Cons a fragment)
  let ?s1 = "s\<lparr> node_to_block := AList.update a name (node_to_block s),
                  node_to_fragment := AList.update a (length (fragments s) - 1) (node_to_fragment s) \<rparr>"
  have "fst ` set (node_to_fragment ?s1) = insert a (fst ` set (node_to_fragment s))"
    by (simp add: dom_update)
  then show ?case using Cons.IH[of ?s1] by auto
qed

lemma assign_fragment_added [simp]:
  "added_fragments (assign_fragment s name fragment) = added_fragments s"
  unfolding assign_fragment_def by (induction fragment arbitrary: s) auto

lemma match_fragments_props:
  assumes "match_fragments ra s comps = Inr s'"
  shows "fst ` set (node_to_fragment s') \<subseteq> fst ` set (node_to_fragment s) \<union> \<Union>(set ` set comps)"
    and "added_fragments s' = added_fragments s"
  using assms
proof (induction comps arbitrary: s)
  case Nil
  { case 1 then show ?case by simp }
  { case 2 then show ?case by simp }
next
  case (Cons g comps)
  { case 1
    from 1 obtain name where
      rest: "match_fragments ra (assign_fragment (s\<lparr> fragments := fragments s @ [g] \<rparr>) name g) comps = Inr s'"
      by (auto split: list.splits option.splits sum.splits if_splits)
    from Cons.IH(1)[OF rest] assign_fragment_keys[of "s\<lparr> fragments := fragments s @ [g] \<rparr>" name g]
    show ?case by auto }
  { case 2
    from 2 obtain name where
      rest: "match_fragments ra (assign_fragment (s\<lparr> fragments := fragments s @ [g] \<rparr>) name g) comps = Inr s'"
      by (auto split: list.splits option.splits sum.splits if_splits)
    from Cons.IH(2)[OF rest] show ?case by simp }
qed

lemma match_no_fragment_entry:
  assumes "match_nodes_to_blocks (init ff) m = Inr s1" and "\<not> has_from_itp m n"
  shows "map_of (node_to_fragment s1) n = None \<and> added_fragments s1 = []"
proof -
  from assms(1) obtain ntb where
    mf: "match_fragments (restart_attr_of m) (init ff\<lparr> node_to_block := ntb \<rparr>)
            (connected_components (restart_graph_of m)) = Inr s1"
    by (auto simp: match_nodes_to_blocks_def split: sum.splits)
  have "n \<notin> fst ` set (node_to_fragment s1)"
  proof
    assume "n \<in> fst ` set (node_to_fragment s1)"
    then obtain f where "f \<in> set (connected_components (restart_graph_of m))" "n \<in> set f"
      using match_fragments_props(1)[OF mf] by (auto simp: init_def)
    then have "has_from_itp m n"
      using components_in_support restart_graph_from_itp by blast
    then show False using assms(2) by simp
  qed
  then have "map_of (node_to_fragment s1) n = None" by (simp add: map_of_eq_None_iff)
  moreover have "added_fragments s1 = []"
    using match_fragments_props(2)[OF mf] by (simp add: init_def)
  ultimately show ?thesis by simp
qed

text \<open>
  A component is closed under the adjacency of the graph, and every node lies in one:
  the end points of an edge of the restart graph are in the same component.
\<close>

lemma dfs_loop_closed:
  assumes "\<forall>u\<in>set visited. set (nbrs adj u) \<subseteq> set visited \<or>
             (\<exists>cs. (u, cs) \<in> set stack \<and> set (nbrs adj u) \<subseteq> set visited \<union> set cs)"
  shows "\<forall>u\<in>set (fst (dfs_loop adj stack visited out)).
           set (nbrs adj u) \<subseteq> set (fst (dfs_loop adj stack visited out))"
  using assms
proof (induction adj stack visited out rule: dfs_loop.induct)
  case (1 adj visited out)
  then show ?case by simp
next
  case (2 adj parent stack visited out)
  have "\<forall>u\<in>set visited. set (nbrs adj u) \<subseteq> set visited \<or>
             (\<exists>cs. (u, cs) \<in> set stack \<and> set (nbrs adj u) \<subseteq> set visited \<union> set cs)"
    using 2(2) by fastforce
  from 2(1)[OF this] show ?case by simp
next
  case (3 adj parent child children stack visited out)
  show ?case
  proof (cases "child \<in> set visited")
    case True
    have "\<forall>u\<in>set visited. set (nbrs adj u) \<subseteq> set visited \<or>
             (\<exists>cs. (u, cs) \<in> set ((parent, children) # stack) \<and>
                   set (nbrs adj u) \<subseteq> set visited \<union> set cs)"
    proof
      fix u assume u: "u \<in> set visited"
      from 3(3) u consider "set (nbrs adj u) \<subseteq> set visited"
        | cs where "(u, cs) \<in> set ((parent, child # children) # stack)"
            "set (nbrs adj u) \<subseteq> set visited \<union> set cs"
        by blast
      then show "set (nbrs adj u) \<subseteq> set visited \<or>
             (\<exists>cs. (u, cs) \<in> set ((parent, children) # stack) \<and>
                   set (nbrs adj u) \<subseteq> set visited \<union> set cs)"
      proof cases
        case 1
        then show ?thesis by simp
      next
        case 2
        show ?thesis
        proof (cases "(u, cs) = (parent, child # children)")
          case eq: True
          then have "set (nbrs adj u) \<subseteq> set visited \<union> set children"
            using 2(2) True by auto
          then show ?thesis using eq by auto
        next
          case False
          then show ?thesis using 2 by auto
        qed
      qed
    qed
    from 3(1)[OF True this] True show ?thesis by simp
  next
    case False
    let ?stack = "(child, nbrs adj child) # (parent, children) # stack"
    have "\<forall>u\<in>set (visited @ [child]). set (nbrs adj u) \<subseteq> set (visited @ [child]) \<or>
             (\<exists>cs. (u, cs) \<in> set ?stack \<and> set (nbrs adj u) \<subseteq> set (visited @ [child]) \<union> set cs)"
    proof
      fix u assume u: "u \<in> set (visited @ [child])"
      show "set (nbrs adj u) \<subseteq> set (visited @ [child]) \<or>
             (\<exists>cs. (u, cs) \<in> set ?stack \<and> set (nbrs adj u) \<subseteq> set (visited @ [child]) \<union> set cs)"
      proof (cases "u = child")
        case True
        then show ?thesis by auto
      next
        case nc: False
        then have "u \<in> set visited" using u by simp
        with 3(3) consider "set (nbrs adj u) \<subseteq> set visited"
          | cs where "(u, cs) \<in> set ((parent, child # children) # stack)"
              "set (nbrs adj u) \<subseteq> set visited \<union> set cs"
          by blast
        then show ?thesis
        proof cases
          case 1
          then show ?thesis by auto
        next
          case 2
          show ?thesis
          proof (cases "(u, cs) = (parent, child # children)")
            case eq: True
            then have "set (nbrs adj u) \<subseteq> set (visited @ [child]) \<union> set children"
              using 2(2) by auto
            then show ?thesis using eq by auto
          next
            case False
            then have "(u, cs) \<in> set ?stack" using 2(1) by auto
            moreover have "set (nbrs adj u) \<subseteq> set (visited @ [child]) \<union> set cs"
              using 2(2) by auto
            ultimately show ?thesis by blast
          qed
        qed
      qed
    qed
    from 3(2)[OF False, folded nbrs_def, OF this] False show ?thesis by (simp add: nbrs_def)
  qed
qed


lemma component_closed:
  "v \<in> set (fst (dfs_loop adj [(v, nbrs adj v)] [v] [])) \<and>
   (\<forall>u\<in>set (fst (dfs_loop adj [(v, nbrs adj v)] [v] [])).
      set (nbrs adj u) \<subseteq> set (fst (dfs_loop adj [(v, nbrs adj v)] [v] [])))"
proof
  show "v \<in> set (fst (dfs_loop adj [(v, nbrs adj v)] [v] []))"
    using dfs_loop_visited[of "[v]" adj "[(v, nbrs adj v)]" "[]"] by simp
  show "\<forall>u\<in>set (fst (dfs_loop adj [(v, nbrs adj v)] [v] [])).
      set (nbrs adj u) \<subseteq> set (fst (dfs_loop adj [(v, nbrs adj v)] [v] []))"
    by (rule dfs_loop_closed) auto
qed

lemma components_from_closed:
  "f \<in> set (components_from adj ks seen) \<Longrightarrow> u \<in> set f \<Longrightarrow> set (nbrs adj u) \<subseteq> set f"
proof (induction ks arbitrary: seen)
  case Nil
  then show ?case by simp
next
  case (Cons v ks)
  show ?case
  proof (cases "v \<in> set seen")
    case True
    then show ?thesis using Cons by simp
  next
    case False
    then have "f = fst (dfs_loop adj [(v, nbrs adj v)] [v] []) \<or>
               f \<in> set (components_from adj ks (seen @ fst (dfs_loop adj [(v, nbrs adj v)] [v] [])))"
      using Cons.prems(1) by (auto simp: Let_def nbrs_def)
    then show ?thesis
    proof
      assume "f = fst (dfs_loop adj [(v, nbrs adj v)] [v] [])"
      then show ?thesis using component_closed[of v adj] Cons.prems(2) by blast
    next
      assume "f \<in> set (components_from adj ks (seen @ fst (dfs_loop adj [(v, nbrs adj v)] [v] [])))"
      then show ?thesis using Cons.IH Cons.prems(2) by blast
    qed
  qed
qed

lemma components_from_cover:
  "v \<in> set ks \<Longrightarrow> v \<in> set seen \<or> (\<exists>f\<in>set (components_from adj ks seen). v \<in> set f)"
proof (induction ks arbitrary: seen)
  case Nil
  then show ?case by simp
next
  case (Cons k ks)
  let ?c = "fst (dfs_loop adj [(k, nbrs adj k)] [k] [])"
  show ?case
  proof (cases "k \<in> set seen")
    case True
    then show ?thesis using Cons by auto
  next
    case False
    have cf: "components_from adj (k # ks) seen = ?c # components_from adj ks (seen @ ?c)"
      using False by (simp add: Let_def nbrs_def)
    show ?thesis
    proof (cases "v = k")
      case True
      then show ?thesis using component_closed[of k adj] cf by auto
    next
      case False
      then have "v \<in> set ks" using Cons.prems by simp
      from Cons.IH[OF this, of "seen @ ?c"] show ?thesis using cf by auto
    qed
  qed
qed

lemma gadj_add_node:
  "gadj (add_node g n data) = (if map_of (gnodes g) n = None then gadj g @ [(n, [])] else gadj g)"
  by (simp add: add_node_def split: option.splits)

lemma neighbors_add_node: "neighbors (add_node g n data) x = neighbors g x"
proof (cases "map_of (gnodes g) n = None")
  case new: True
  have m: "map_of (gadj g @ [(n, [])]) x =
        (case map_of (gadj g) x of None \<Rightarrow> (if x = n then Some [] else None) | Some ns \<Rightarrow> Some ns)"
    by (simp add: map_add_def split: option.splits)
  have g': "gadj (add_node g n data) = gadj g @ [(n, [])]"
    using new by (simp add: gadj_add_node)
  have "neighbors (add_node g n data) x = (case map_of (gadj g @ [(n, [])]) x of None \<Rightarrow> [] | Some ns \<Rightarrow> ns)"
    unfolding neighbors_def g' ..
  also have "\<dots> = neighbors g x"
    unfolding m neighbors_def by (cases "map_of (gadj g) x") simp_all
  finally show ?thesis .
next
  case False
  then have "gadj (add_node g n data) = gadj g" by (simp only: gadj_add_node if_False)
  then show ?thesis by (simp only: neighbors_def)
qed

lemma neighbors_add_neighbor:
  "set (neighbors (add_neighbor g u v) x) =
     (if x = u then insert v (set (neighbors g u)) else set (neighbors g x))"
proof (cases "v \<in> set (neighbors g u)")
  case True
  then show ?thesis by (auto simp: add_neighbor_def)
next
  case False
  then have "gadj (add_neighbor g u v) = AList.update u (neighbors g u @ [v]) (gadj g)"
    by (simp add: add_neighbor_def)
  then have "neighbors (add_neighbor g u v) x = (if x = u then neighbors g u @ [v] else neighbors g x)"
    by (simp add: neighbors_def[of "add_neighbor g u v"] update_conv') (simp add: neighbors_def)
  then show ?thesis by simp
qed

lemma node_keys_add_neighbor [simp]: "node_keys (add_neighbor g u v) = node_keys g"
  by (simp add: node_keys_def)

lemma add_edge_props:
  "set (node_keys (add_edge g u v)) = {u, v} \<union> set (node_keys g)"
  "set (neighbors (add_edge g u v) x) =
     (if x = u then {v} else {}) \<union> (if x = v then {u} else {}) \<union> set (neighbors g x)"
  by (auto simp: add_edge_def Let_def has_node_def add_node_props(2) neighbors_add_neighbor
      neighbors_add_node)

lemma restart_graph_edges:
  assumes "(a, b) \<in> set es" and "map_of ra a \<noteq> None" and "map_of ra b \<noteq> None"
  shows "a \<in> set (node_keys (snd (fold (\<lambda>(idx, jdx) (regular_graph, restart_graph).
             if map_of ra idx \<noteq> None \<and> map_of ra jdx \<noteq> None
             then (regular_graph, add_edge restart_graph idx jdx)
             else (add_edge regular_graph idx jdx, restart_graph)) es
                (reg :: val graph, res :: val graph)))) \<and>
         b \<in> set (neighbors (snd (fold (\<lambda>(idx, jdx) (regular_graph, restart_graph).
             if map_of ra idx \<noteq> None \<and> map_of ra jdx \<noteq> None
             then (regular_graph, add_edge restart_graph idx jdx)
             else (add_edge regular_graph idx jdx, restart_graph)) es (reg, res))) a)"
    (is "?P es reg res")
proof -
  let ?step = "\<lambda>(idx, jdx) (regular_graph, restart_graph).
             if map_of ra idx \<noteq> None \<and> map_of ra jdx \<noteq> None
             then (regular_graph, add_edge restart_graph idx jdx)
             else (add_edge regular_graph idx jdx :: val graph, restart_graph :: val graph)"
  have keep: "a \<in> set (node_keys res) \<and> b \<in> set (neighbors res a) \<Longrightarrow>
              a \<in> set (node_keys (snd (fold ?step es (reg, res)))) \<and>
              b \<in> set (neighbors (snd (fold ?step es (reg, res))) a)" for es reg res
  proof (induction es arbitrary: reg res)
    case Nil
    then show ?case by simp
  next
    case (Cons e es)
    obtain i j where e: "e = (i, j)" by (cases e)
    show ?case
    proof (cases "map_of ra i \<noteq> None \<and> map_of ra j \<noteq> None")
      case True
      have "a \<in> set (node_keys (add_edge res i j)) \<and> b \<in> set (neighbors (add_edge res i j) a)"
        using Cons.prems by (simp add: add_edge_props)
      from Cons.IH[OF this, of reg] show ?thesis using True e by simp
    next
      case False
      from Cons.IH[OF Cons.prems, of "add_edge reg i j"] show ?thesis using False e by auto
    qed
  qed
  show ?thesis using assms(1)
  proof (induction es arbitrary: reg res)
    case Nil
    then show ?case by simp
  next
    case (Cons e es)
    obtain i j where e: "e = (i, j)" by (cases e)
    show ?case
    proof (cases "e = (a, b)")
      case True
      have "a \<in> set (node_keys (add_edge res a b)) \<and> b \<in> set (neighbors (add_edge res a b) a)"
        by (simp add: add_edge_props)
      from keep[OF this, of es reg] show ?thesis using True assms(2,3) by simp
    next
      case False
      then have in_es: "(a, b) \<in> set es" using Cons.prems by simp
      show ?thesis
      proof (cases "map_of ra i \<noteq> None \<and> map_of ra j \<noteq> None")
        case True
        from Cons.IH[OF in_es, of reg "add_edge res i j"] show ?thesis using True e by simp
      next
        case False
        from Cons.IH[OF in_es, of "add_edge reg i j" res] show ?thesis using False e by auto
      qed
    qed
  qed
qed

lemma traversed_restart_edge_in_component:
  assumes "(a, b) \<in> set (dfs_edges m)" and "map_of (restart_attr_of m) a \<noteq> None"
    and "map_of (restart_attr_of m) b \<noteq> None"
  shows "\<exists>f\<in>set (connected_components (restart_graph_of m)). a \<in> set f \<and> b \<in> set f"
proof -
  have "a \<in> set (node_keys (restart_graph_of m)) \<and> b \<in> set (neighbors (restart_graph_of m) a)"
    unfolding restart_graph_of_def classify_edges_def
    by (rule restart_graph_edges[OF assms])
  then have a: "a \<in> set (node_keys (restart_graph_of m))"
    and b: "b \<in> set (neighbors (restart_graph_of m) a)"
    by blast+
  from components_from_cover[OF a, of "[]" "gadj (restart_graph_of m)"] obtain f where
    f: "f \<in> set (connected_components (restart_graph_of m))" "a \<in> set f"
    by (auto simp: connected_components_def)
  have "set (nbrs (gadj (restart_graph_of m)) a) \<subseteq> set f"
    using components_from_closed f unfolding connected_components_def by blast
  then have "b \<in> set f" using b by (auto simp: neighbors_def nbrs_def)
  then show ?thesis using f by blast
qed

lemma match_fragments_inconsistent:
  assumes "f \<in> set comps" and "a \<in> set f" and "b \<in> set f" and "map_of ra a \<noteq> map_of ra b"
    and "\<And>g. g \<in> set comps \<Longrightarrow> g \<noteq> []"
  shows "match_fragments ra s comps = Inl IOError \<or> match_fragments ra s comps = Inl KeyError"
  using assms
proof (induction comps arbitrary: s)
  case Nil
  then show ?case by simp
next
  case (Cons g comps)
  from Cons.prems(5)[of g] obtain first tl where g: "g = first # tl" by (cases g) auto
  show ?case
  proof (cases "map_of ra first")
    case None
    then show ?thesis using g by simp
  next
    case (Some block_name)
    show ?thesis
    proof (cases "\<exists>k\<in>set g. map_of ra k = None")
      case True
      then have "lookup_all ra g = Inl KeyError" by (simp add: lookup_all_eq)
      then show ?thesis using g Some by simp
    next
      case False
      then have la: "lookup_all ra g = Inr (map (\<lambda>k. the (map_of ra k)) g)"
        by (simp add: lookup_all_eq)
      show ?thesis
      proof (cases "list_all (\<lambda>name. name = block_name) (map (\<lambda>k. the (map_of ra k)) g)")
        case all: True
        have same: "\<And>k. k \<in> set g \<Longrightarrow> map_of ra k = Some block_name"
        proof -
          fix k assume k: "k \<in> set g"
          then have "the (map_of ra k) = block_name" using all by (auto simp: list_all_iff)
          moreover have "map_of ra k \<noteq> None" using False k by auto
          ultimately show "map_of ra k = Some block_name" by auto
        qed
        have "f \<noteq> g" using same Cons.prems(2,3,4) by auto
        then have fin: "f \<in> set comps" using Cons.prems(1) by simp
        show ?thesis
        proof (cases "lookup_block (force_field s) block_name")
          case (Inl e)
          then have "e = KeyError" by (auto simp: lookup_block_def split: val.splits option.splits)
          then show ?thesis using g Some la all Inl by simp
        next
          case (Inr kb)
          have "match_fragments ra (assign_fragment (s\<lparr> fragments := fragments s @ [g] \<rparr>) block_name g) comps = Inl IOError
              \<or> match_fragments ra (assign_fragment (s\<lparr> fragments := fragments s @ [g] \<rparr>) block_name g) comps = Inl KeyError"
            by (rule Cons.IH[OF fin Cons.prems(2,3,4)]) (use Cons.prems(5) in auto)
          then show ?thesis using g Some la all Inr by auto
        qed
      next
        case False
        then show ?thesis using g Some la by simp
      qed
    qed
  qed
qed

lemma match_regular_error: "match_regular m ntb ks = Inl e \<Longrightarrow> e = KeyError"
  by (induction ks arbitrary: ntb) (auto split: option.splits)


lemma run_XY: "run_molecule (init ff0) meta_XY = (ff0, Inl IOError)"
  by code_simp

text \<open>
  C5, as stated, fails. In \<open>meta_cycle\<close> the residues 1 and 3 are bonded, both carry
  \<^verbatim>\<open>from_itp\<close>, and they name different templates, so the residues joined by such bonds
  reference two template names. The depth-first search reaches residue 3 through
  residue 2, the bond 3-1 is not traversed, and \<^verbatim>\<open>run_molecule\<close> returns without any
  exception.
\<close>

theorem untraversed_restart_edge_not_checked:
  "3 \<in> set (neighbors meta_cycle 1) \<and>
   map_of (restart_attr_of meta_cycle) 1 = Some (VStr ''X'') \<and>
   map_of (restart_attr_of meta_cycle) 3 = Some (VStr ''Y'') \<and>
   \<not> isl (snd (run_molecule (init ff0) meta_cycle))"
  by code_simp

lemma inconsistent_component_raises:
  assumes "f \<in> set (connected_components (restart_graph_of m))"
    and "a \<in> set f" and "b \<in> set f"
    and "map_of (restart_attr_of m) a \<noteq> map_of (restart_attr_of m) b"
  shows "\<exists>e. (e = IOError \<or> e = KeyError) \<and> match_nodes_to_blocks s m = Inl e \<and>
             run_molecule s m = (force_field s, Inl e)"
proof (cases "match_regular m (node_to_block s) (node_keys (regular_graph_of m))")
  case (Inl e)
  then show ?thesis using match_regular_error[OF Inl]
    by (simp add: match_nodes_to_blocks_def run_molecule_def)
next
  case (Inr ntb)
  have "match_fragments (restart_attr_of m) (s\<lparr> node_to_block := ntb \<rparr>)
            (connected_components (restart_graph_of m)) = Inl IOError
      \<or> match_fragments (restart_attr_of m) (s\<lparr> node_to_block := ntb \<rparr>)
            (connected_components (restart_graph_of m)) = Inl KeyError"
    by (rule match_fragments_inconsistent[OF assms])
       (auto simp: connected_components_def dest: components_from_nonempty)
  then show ?thesis using Inr
    by (auto simp: match_nodes_to_blocks_def run_molecule_def)
qed


text \<open>
  C5, amended. The restart graph holds the traversed edges (the tree edges of the
  depth-first search) whose both end points carry \<^verbatim>\<open>from_itp\<close>. If two members of one
  of its connected components differ in \<^verbatim>\<open>from_itp\<close> (in particular, if a traversed
  edge joins two nodes that name different templates), then \<^verbatim>\<open>match_nodes_to_blocks\<close>
  raises (\<^verbatim>\<open>IOError\<close>, or the \<^verbatim>\<open>KeyError\<close> of a lookup that comes first),
  \<^verbatim>\<open>run_molecule\<close> raises the same exception, and the template library is the one the
  call started with: neither \<^verbatim>\<open>tag_exclusions\<close> nor \<^verbatim>\<open>add_blocks\<close>, which alone
  builds a molecule, has run.
\<close>

theorem inconsistent_fragment_raises:
  "(f \<in> set (connected_components (restart_graph_of m)) \<longrightarrow> a \<in> set f \<longrightarrow> b \<in> set f \<longrightarrow>
      map_of (restart_attr_of m) a \<noteq> map_of (restart_attr_of m) b \<longrightarrow>
      (\<exists>e. (e = IOError \<or> e = KeyError) \<and> match_nodes_to_blocks s m = Inl e \<and>
           run_molecule s m = (force_field s, Inl e))) \<and>
   ((u, v) \<in> set (dfs_edges m) \<longrightarrow>
      map_of (restart_attr_of m) u = Some x \<longrightarrow> map_of (restart_attr_of m) v = Some y \<longrightarrow>
      x \<noteq> y \<longrightarrow>
      (\<exists>e. (e = IOError \<or> e = KeyError) \<and> match_nodes_to_blocks s m = Inl e \<and>
           run_molecule s m = (force_field s, Inl e)))"
proof (rule conjI; intro impI)
  assume "f \<in> set (connected_components (restart_graph_of m))" "a \<in> set f" "b \<in> set f"
    "map_of (restart_attr_of m) a \<noteq> map_of (restart_attr_of m) b"
  then show "\<exists>e. (e = IOError \<or> e = KeyError) \<and> match_nodes_to_blocks s m = Inl e \<and>
           run_molecule s m = (force_field s, Inl e)"
    by (rule inconsistent_component_raises)
next
  assume e: "(u, v) \<in> set (dfs_edges m)"
    and x: "map_of (restart_attr_of m) u = Some x" and y: "map_of (restart_attr_of m) v = Some y"
    and ne: "x \<noteq> y"
  from traversed_restart_edge_in_component[OF e] x y obtain g where
    "g \<in> set (connected_components (restart_graph_of m))" "u \<in> set g" "v \<in> set g"
    by auto
  moreover have "map_of (restart_attr_of m) u \<noteq> map_of (restart_attr_of m) v"
    using x y ne by simp
  ultimately show "\<exists>e. (e = IOError \<or> e = KeyError) \<and> match_nodes_to_blocks s m = Inl e \<and>
           run_molecule s m = (force_field s, Inl e)"
    by (rule inconsistent_component_raises)
qed

theorem inconsistent_fragment_raises_witness:
  "connected_components (restart_graph_of meta_XY) = [[0, 1]] \<and>
   dfs_edges meta_XY = [(0, 1)] \<and>
   map_of (restart_attr_of meta_XY) 0 = Some (VStr ''X'') \<and>
   map_of (restart_attr_of meta_XY) 1 = Some (VStr ''Y'') \<and>
   match_nodes_to_blocks (init ff0) meta_XY = Inl IOError \<and>
   run_molecule (init ff0) meta_XY = (ff0, Inl IOError)"
proof -
  have c: "connected_components (restart_graph_of meta_XY) = [[0, 1]]" by code_simp
  have d: "dfs_edges meta_XY = [(0, 1)]" by code_simp
  have a0: "map_of (restart_attr_of meta_XY) 0 = Some (VStr ''X'')" by code_simp
  have a1: "map_of (restart_attr_of meta_XY) 1 = Some (VStr ''Y'')" by code_simp
  have h1: "[0, 1] \<in> set (connected_components (restart_graph_of meta_XY))" using c by simp
  have h2: "(0, 1) \<in> set (dfs_edges meta_XY)" using d by simp
  have h4: "map_of (restart_attr_of meta_XY) 0 \<noteq> map_of (restart_attr_of meta_XY) 1"
    using a0 a1 by simp
  from inconsistent_fragment_raises[of "[0, 1]" meta_XY 0 1 "init ff0" 0 1 "VStr ''X''" "VStr ''Y''"]
    h1 h2 h4 a0 a1 run_XY
  have "match_nodes_to_blocks (init ff0) meta_XY = Inl IOError" by auto
  then show ?thesis using c d a0 a1 run_XY by simp
qed

text \<open>
  C4: the code at its failing input. Classification only enters the nodes of the
  traversed edges. In \<open>meta_single\<close>, a meta-molecule of one residue, no edge is
  traversed: \<^verbatim>\<open>match_nodes_to_blocks\<close> returns without an exception and leaves
  \<^verbatim>\<open>node_to_block\<close> empty, and \<^verbatim>\<open>add_blocks\<close> then raises \<^verbatim>\<open>KeyError\<close> at
  \<^verbatim>\<open>node_to_block[start_node]\<close>.
\<close>

theorem isolated_node_not_classified:
  "node_keys meta_single = [0] \<and>
   match_nodes_to_blocks (init ff0) meta_single = Inr (init ff0) \<and>
   node_to_block (init ff0) = [] \<and>
   run_molecule (init ff0) meta_single = (ff0, Inl KeyError)"
  by code_simp

text \<open>
  C7: the code at its failing input. No node of \<open>meta_AA_isolated\<close> carries
  \<^verbatim>\<open>from_itp\<close>. Classification gives the bonded residues 0 and 1 their \<^verbatim>\<open>resname\<close>
  and gives residue 2, which has no bond, no template name; the fragment list and
  \<^verbatim>\<open>node_to_fragment\<close> stay empty.
\<close>

theorem resname_only_node_without_template:
  "map (has_from_itp meta_AA_isolated) (node_keys meta_AA_isolated) = [False, False, False] \<and>
   (case match_nodes_to_blocks (init ff0) meta_AA_isolated of
      Inl e \<Rightarrow> False
    | Inr s \<Rightarrow> map (map_of (node_to_block s)) (node_keys meta_AA_isolated)
                 = [Some (VStr ''A''), Some (VStr ''A''), None] \<and>
               fragments s = [] \<and> node_to_fragment s = [])"
  by code_simp

section \<open>Assembly\<close>

lemma run_AXX: "run_molecule (init ff0) meta_AXX = (ff0, Inl KeyError)"
  by code_simp

lemma mark_fragment_KeyError:
  assumes "has_from_itp meta n" and "map_of (node_to_fragment s) start = None"
    and "added_fragments s = []"
  shows "mark_fragment s meta start n corr = Inl KeyError"
  using assms by (auto simp: mark_fragment_def has_from_itp_def split: option.splits)

lemma add_block_node_from_itp:
  assumes "has_from_itp meta n" and "map_of (node_to_fragment s) start = None"
    and "added_fragments s = []"
  shows "add_block_node start (s, meta, mol) n =
           (case fetch_correspondence s mol n of
              Inl e \<Rightarrow> Inl e
            | Inr (mol', corr) \<Rightarrow>
                (case correspondence_to_residue meta mol' corr n of
                   Inl e \<Rightarrow> Inl e
                 | Inr residue \<Rightarrow> Inl KeyError))"
proof (cases "fetch_correspondence s mol n")
  case (Inl e)
  then show ?thesis by (simp add: add_block_node_def)
next
  case (Inr mc)
  obtain mol' corr where mc: "mc = (mol', corr)" by (cases mc)
  show ?thesis
  proof (cases "correspondence_to_residue meta mol' corr n")
    case (Inl e)
    then show ?thesis using Inr mc by (simp add: add_block_node_def)
  next
    case r: (Inr residue)
    from assms(1) obtain d where d: "map_of (gnodes meta) n = Some d"
      by (auto simp: has_from_itp_def split: option.splits)
    then obtain meta' where sa: "set_attr meta n ''graph'' (VGraph residue) = Inr meta'"
      by (simp add: set_attr_def)
    have "has_from_itp meta' n" using set_graph_attr(2)[OF sa] assms(1) by simp
    then have "mark_fragment s meta' start n corr = Inl KeyError"
      using assms(2,3) by (rule mark_fragment_KeyError)
    then show ?thesis using Inr mc r sa by (simp add: add_block_node_def)
  qed
qed

lemma add_block_node_state:
  assumes "add_block_node start (s, meta, mol) node = Inr (s', meta', mol')"
  shows "node_to_fragment s' = node_to_fragment s" and "added_fragments s' = added_fragments s"
    and "has_from_itp meta' n = has_from_itp meta n"
proof -
  from assms obtain corr residue where
    sa: "set_attr meta node ''graph'' (VGraph residue) = Inr meta'"
    and mf: "mark_fragment s meta' start node corr = Inr s'"
    by (auto simp: add_block_node_def split: sum.splits prod.splits)
  show "node_to_fragment s' = node_to_fragment s" and "added_fragments s' = added_fragments s"
    using mf by (auto simp: mark_fragment_def split: option.splits if_splits)
  show "has_from_itp meta' n = has_from_itp meta n" by (rule set_graph_attr(2)[OF sa])
qed

lemma add_blocks_loop_fails:
  assumes "\<exists>n\<in>set ns. has_from_itp meta n" and "map_of (node_to_fragment s) start = None"
    and "added_fragments s = []"
  shows "\<exists>e. add_blocks_loop start (s, meta, mol) ns = Inl e"
  using assms
proof (induction ns arbitrary: s meta mol)
  case Nil
  then show ?case by simp
next
  case (Cons node ns)
  show ?case
  proof (cases "add_block_node start (s, meta, mol) node")
    case (Inl e)
    then show ?thesis by simp
  next
    case (Inr st)
    obtain s' meta' mol' where st: "st = (s', meta', mol')" by (cases st)
    note step = Inr[unfolded st]
    have "\<not> has_from_itp meta node"
    proof
      assume "has_from_itp meta node"
      from add_block_node_from_itp[OF this Cons.prems(2,3), of mol] step show False
        by (auto split: sum.splits prod.splits)
    qed
    then have "\<exists>n\<in>set ns. has_from_itp meta' n"
      using Cons.prems(1) add_block_node_state(3)[OF step] by auto
    moreover have "map_of (node_to_fragment s') start = None" "added_fragments s' = []"
      using add_block_node_state(1,2)[OF step] Cons.prems(2,3) by simp_all
    ultimately have "\<exists>e. add_blocks_loop start (s', meta', mol') ns = Inl e"
      by (rule Cons.IH)
    then show ?thesis using step by simp
  qed
qed

lemma add_start_node_plain:
  assumes "add_start_node s m start = Inr (s1, m1, mol1)" and "\<not> has_from_itp m start"
  shows "s1 = s" and "has_from_itp m1 n = has_from_itp m n"
proof -
  from assms obtain sa: "set_attr m start ''graph'' (VGraph (mgraph mol1)) = Inr m1" and s1: "s1 = s"
    by (auto simp: add_start_node_def has_from_itp_def split: option.splits sum.splits if_splits)
  show "s1 = s" by (rule s1)
  show "has_from_itp m1 n = has_from_itp m n" by (rule set_graph_attr(2)[OF sa])
qed

lemma add_blocks_fails:
  assumes ks: "sorted_node_keys m = Inr (start # rest)" and nf: "\<not> has_from_itp m start"
    and ex: "\<exists>n\<in>set rest. has_from_itp m n"
    and fr: "map_of (node_to_fragment s) start = None" and af: "added_fragments s = []"
  shows "\<exists>e. add_blocks s m = Inl e"
proof (cases "add_start_node s m start")
  case (Inl e)
  then show ?thesis using ks by (simp add: add_blocks_def)
next
  case (Inr st)
  obtain s1 m1 mol1 where st: "st = (s1, m1, mol1)" by (cases st)
  note sn = Inr[unfolded st]
  have "\<exists>n\<in>set rest. has_from_itp m1 n" using ex add_start_node_plain(2)[OF sn nf] by simp
  moreover have "map_of (node_to_fragment s1) start = None" "added_fragments s1 = []"
    using add_start_node_plain(1)[OF sn nf] fr af by simp_all
  ultimately have "\<exists>e. add_blocks_loop start (s1, m1, mol1) rest = Inl e"
    by (rule add_blocks_loop_fails)
  then show ?thesis using ks sn by (simp add: add_blocks_def)
qed

text \<open>
  C3. Let the first node of the visiting order carry no \<^verbatim>\<open>from_itp\<close> and a later node
  carry it. After classification by a fresh processor the first node has no entry in
  \<^verbatim>\<open>node_to_fragment\<close>. In any such state \<^verbatim>\<open>add_blocks\<close> raises: the round of a node
  with \<^verbatim>\<open>from_itp\<close> ends in the exception of its lookup or merge, in that of the residue
  extraction, or else in the \<^verbatim>\<open>KeyError\<close> of \<^verbatim>\<open>node_to_fragment[start_node]\<close>. So
  \<^verbatim>\<open>run_molecule\<close> never completes on such a meta-molecule.
\<close>

theorem add_blocks_fails_after_plain_start:
  assumes "sorted_node_keys m = Inr (start # rest)" and "\<not> has_from_itp m start"
    and "\<exists>n\<in>set rest. has_from_itp m n"
  shows "(match_nodes_to_blocks (init ff) m = Inr s1 \<longrightarrow>
            map_of (node_to_fragment s1) start = None \<and> added_fragments s1 = []) \<and>
         (map_of (node_to_fragment s) start = None \<longrightarrow> added_fragments s = [] \<longrightarrow>
            (\<exists>e. add_blocks s m = Inl e) \<and>
            (has_from_itp meta n \<longrightarrow>
               add_block_node start (s, meta, mol) n =
                 (case fetch_correspondence s mol n of
                    Inl e \<Rightarrow> Inl e
                  | Inr (mol', corr) \<Rightarrow>
                      (case correspondence_to_residue meta mol' corr n of
                         Inl e \<Rightarrow> Inl e
                       | Inr residue \<Rightarrow> Inl KeyError)))) \<and>
         (\<exists>e. snd (run_molecule (init ff) m) = Inl e)"
proof (intro conjI impI)
  assume "match_nodes_to_blocks (init ff) m = Inr s1"
  from match_no_fragment_entry[OF this assms(2)]
  show "map_of (node_to_fragment s1) start = None" and "added_fragments s1 = []" by simp_all
next
  assume "map_of (node_to_fragment s) start = None" "added_fragments s = []"
  then show "\<exists>e. add_blocks s m = Inl e" by (rule add_blocks_fails[OF assms])
next
  assume "map_of (node_to_fragment s) start = None" "added_fragments s = []" "has_from_itp meta n"
  then show "add_block_node start (s, meta, mol) n =
                 (case fetch_correspondence s mol n of
                    Inl e \<Rightarrow> Inl e
                  | Inr (mol', corr) \<Rightarrow>
                      (case correspondence_to_residue meta mol' corr n of
                         Inl e \<Rightarrow> Inl e
                       | Inr residue \<Rightarrow> Inl KeyError))"
    by (intro add_block_node_from_itp)
next
  show "\<exists>e. snd (run_molecule (init ff) m) = Inl e"
  proof (cases "match_nodes_to_blocks (init ff) m")
    case (Inl e)
    then show ?thesis by (simp add: run_molecule_def)
  next
    case (Inr s1)
    obtain ff' eo where te: "tag_exclusions (node_to_block s1) (force_field s1) = (ff', eo)"
      by (cases "tag_exclusions (node_to_block s1) (force_field s1)")
    show ?thesis
    proof (cases eo)
      case (Some e)
      then show ?thesis using Inr te by (simp add: run_molecule_def)
    next
      case None
      have "map_of (node_to_fragment (s1\<lparr> force_field := ff' \<rparr>)) start = None"
        "added_fragments (s1\<lparr> force_field := ff' \<rparr>) = []"
        using match_no_fragment_entry[OF Inr assms(2)] by simp_all
      then have "\<exists>e. add_blocks (s1\<lparr> force_field := ff' \<rparr>) m = Inl e"
        by (rule add_blocks_fails[OF assms])
      then show ?thesis using Inr te None by (auto simp: run_molecule_def)
    qed
  qed
qed

theorem add_blocks_fails_after_plain_start_witness:
  "sorted_node_keys meta_AXX = Inr [0, 1, 2] \<and> \<not> has_from_itp meta_AXX 0 \<and>
   has_from_itp meta_AXX 1 \<and> run_molecule (init ff0) meta_AXX = (ff0, Inl KeyError)"
proof -
  have ks: "sorted_node_keys meta_AXX = Inr (0 # [1, 2])" by code_simp
  have nf: "\<not> has_from_itp meta_AXX 0" by code_simp
  have f1: "has_from_itp meta_AXX 1" by code_simp
  then have ex: "\<exists>n\<in>set [1, 2]. has_from_itp meta_AXX n" by simp
  from add_blocks_fails_after_plain_start[OF ks nf ex, of ff0] run_AXX
  show ?thesis using ks nf f1 by simp
qed

text \<open>
  C2: the code at its failing input. In \<open>meta_XXAYY\<close> the residues 3 and 4 form the
  second fragment, of template \<open>Y\<close>. When residue 3 is reached, the nodes marked as
  materialised are those of the first node's fragment (line 223), so residue 4 is not
  found among them and template \<open>Y\<close> is merged a second time: the molecule has eight
  atoms instead of six, and the residue extracted for residue 4 is empty.
\<close>

theorem second_fragment_merged_twice:
  "(case match_nodes_to_blocks (init ff0) meta_XXAYY of
      Inl e \<Rightarrow> False
    | Inr s \<Rightarrow> fragments s = [[0, 1], [3, 4]] \<and>
               map_of (node_to_fragment s) 3 = Some 1 \<and> map_of (node_to_fragment s) 4 = Some 1 \<and>
               map_of (node_to_block s) 3 = Some (VStr ''Y'') \<and>
               map_of (node_to_block s) 4 = Some (VStr ''Y'')) \<and>
   (case snd (run_molecule (init ff0) meta_XXAYY) of
      Inl e \<Rightarrow> False
    | Inr (s, m, fine) \<Rightarrow>
        node_keys (mgraph fine) = [0, 1, 2, 3, 4, 5, 6, 7] \<and>
        map (\<lambda>n. map_option (\<lambda>d. map_of d ''atomname'') (map_of (gnodes (mgraph fine)) n)) [4, 5, 6, 7]
          = [Some (Some (VStr ''c'')), Some (Some (VStr ''d'')),
             Some (Some (VStr ''c'')), Some (Some (VStr ''d''))] \<and>
        map_option (\<lambda>v. case v of VGraph g \<Rightarrow> node_keys g | _ \<Rightarrow> []) (graph_attr m 3) = Some [4] \<and>
        graph_attr m 4 = Some (VGraph (Graph [] [])) \<and>
        added_fragment_nodes s = [0, 1, 0, 1, 0, 1, 0, 1])"
  by code_simp

end
